theory Spec2Isabelle
  imports Main "HOL-Library.Sublist" "HOL-Library.Multiset"
begin

section \<open>Curated photo selection (searchPhotos)\<close>

text \<open>
  A photo object of the stock-photo API. Only \<open>width\<close> and \<open>height\<close> are read by the
  selection code; the other fields identify the photo. Widths and heights are the number
  values of the parsed response, which the API sends as integers.
\<close>

record photo =
  photo_id :: int
  width :: int
  height :: int
  photo_url :: string
  photographer :: string

datatype search_error = MissingApiKey | RequestFailed nat string

text \<open>
  What \<open>fetch\<close> resolved to: the \<open>ok\<close> flag, the status, the body text, and
  \<open>data.photos\<close> of the parsed body (\<open>None\<close> when it is not an array).
\<close>

record api_response =
  resp_ok :: bool
  resp_status :: nat
  resp_text :: string
  resp_photos :: "photo list option"

text \<open>The filter predicate: \<open>p.width >= 2000 && p.height >= 1200\<close>.\<close>

definition isLarge :: "photo \<Rightarrow> bool" where
  "isLarge p = (width p \<ge> 2000 \<and> height p \<ge> 1200)"

text \<open>
  JavaScript numbers are IEEE 754 doubles: the product of two integers is the exact
  product rounded to 53 significant bits, to the nearest such number and to the even one
  of two equally near, and it is \<open>Infinity\<close> from \<open>2^1024 - 2^970\<close> on. \<open>to_double\<close>
  gives the double nearest to an integer, with \<open>2^1024\<close> and \<open>-2^1024\<close> standing for
  the two infinities.
\<close>

function bit_length :: "int \<Rightarrow> nat" where
  "bit_length n = (if n \<le> 0 then 0 else Suc (bit_length (n div 2)))"
  by pat_completeness auto
termination
  by (relation "measure nat") auto

declare bit_length.simps [simp del]

definition round53 :: "int \<Rightarrow> int" where
  "round53 n =
     (if n < 2 ^ 53 then n
      else
        let e = bit_length n - 53; q = n div 2 ^ e; r = n mod 2 ^ e
        in (if 2 ^ e < 2 * r \<or> (2 * r = 2 ^ e \<and> odd q) then q + 1 else q) * 2 ^ e)"

definition to_double :: "int \<Rightarrow> int" where
  "to_double n = sgn n * min (round53 \<bar>n\<bar>) (2 ^ 1024)"

text \<open>
  The comparator \<open>(a, b) => b.width * b.height - a.width * a.height\<close>. The sort reads
  the sign of its result only, and reads \<open>NaN\<close>, the difference of two equal infinities,
  as zero; the difference of the two rounded products has that sign.
\<close>

definition by_area_desc :: "photo \<Rightarrow> photo \<Rightarrow> int" where
  "by_area_desc a b = to_double (width b * height b) - to_double (width a * height a)"

text \<open>
  \<open>Array.prototype.sort\<close> with a comparator: a stable sort, so elements the comparator
  calls equal keep their order. Insertion from the right computes that permutation:
  an element is placed in front of the first one it does not have to follow.
\<close>

fun js_insert :: "('a \<Rightarrow> 'a \<Rightarrow> int) \<Rightarrow> 'a \<Rightarrow> 'a list \<Rightarrow> 'a list" where
  "js_insert cmp x [] = [x]"
| "js_insert cmp x (y # ys) = (if cmp x y \<le> 0 then x # y # ys else y # js_insert cmp x ys)"

definition js_sort :: "('a \<Rightarrow> 'a \<Rightarrow> int) \<Rightarrow> 'a list \<Rightarrow> 'a list" where
  "js_sort cmp xs = foldr (js_insert cmp) xs []"

text \<open>\<open>xs.slice(0, n)\<close> for an integer \<open>n\<close>: a negative end counts from the back.\<close>

definition slice0 :: "'a list \<Rightarrow> int \<Rightarrow> 'a list" where
  "slice0 xs n = (if n < 0 then take (nat (int (length xs) + n)) xs else take (nat n) xs)"

definition searchPhotos :: "string \<Rightarrow> api_response \<Rightarrow> search_error + photo list" where
  "searchPhotos API_KEY response =
     (if API_KEY = [] then Inl MissingApiKey
      else if \<not> resp_ok response then
        Inl (RequestFailed (resp_status response)
              (if resp_text response = [] then ''Unknown error'' else resp_text response))
      else
        let photos = (case resp_photos response of Some ps \<Rightarrow> ps | None \<Rightarrow> []);
            filtered = js_sort by_area_desc (filter isLarge photos)
        in if length filtered \<ge> 5 then Inr (slice0 filtered 5)
           else
             let fallback = slice0 (js_sort by_area_desc (filter (\<lambda>p. True) photos))
                                   (max 5 (int (length filtered)))
             in Inr (slice0 (filtered @ fallback) 5))"

text \<open>The area of a photo as the code computes it, and the exact one.\<close>

definition js_area :: "photo \<Rightarrow> int" where
  "js_area p = to_double (width p * height p)"

definition area :: "photo \<Rightarrow> int" where
  "area p = width p * height p"


section \<open>Strings\<close>

text \<open>
  A JavaScript string is held as the bytes of its UTF-8 encoding; strings are taken to be
  well formed. No encoded character starts inside another, so a well-formed string occurs
  among the bytes of another exactly where it occurs among its characters. \<open>s.includes(t)\<close>
  and the \<open>test\<close> of a regular expression that is a plain literal are both the
  contiguous-substring test.
\<close>

definition js_includes :: "string \<Rightarrow> string \<Rightarrow> bool" where
  "js_includes s t = sublist t s"

text \<open>
  The folding of the \<open>i\<close> flag of a regular expression (without the \<open>u\<close> flag) on the
  letters a to z: only their capitals match them.
\<close>

definition ascii_lower_char :: "char \<Rightarrow> char" where
  "ascii_lower_char c =
     (case map_of (zip ''ABCDEFGHIJKLMNOPQRSTUVWXYZ'' ''abcdefghijklmnopqrstuvwxyz'') c of
        Some l \<Rightarrow> l | None \<Rightarrow> c)"

definition ascii_lower :: "string \<Rightarrow> string" where
  "ascii_lower s = map ascii_lower_char s"

text \<open>
  The characters that \<open>String.prototype.trim\<close> strips, each as its UTF-8 bytes: the white
  space and the line terminators of ECMAScript, that is U+0009 to U+000D, U+0020, U+00A0,
  U+1680, U+2000 to U+200A, U+2028, U+2029, U+202F, U+205F, U+3000 and U+FEFF.
\<close>

definition white_space :: "string list" where
  "white_space =
     [[CHR 0x09], [CHR 0x0A], [CHR 0x0B], [CHR 0x0C], [CHR 0x0D], [CHR 0x20],
      [CHR 0xC2, CHR 0xA0],
      [CHR 0xE1, CHR 0x9A, CHR 0x80],
      [CHR 0xE2, CHR 0x80, CHR 0x80], [CHR 0xE2, CHR 0x80, CHR 0x81],
      [CHR 0xE2, CHR 0x80, CHR 0x82], [CHR 0xE2, CHR 0x80, CHR 0x83],
      [CHR 0xE2, CHR 0x80, CHR 0x84], [CHR 0xE2, CHR 0x80, CHR 0x85],
      [CHR 0xE2, CHR 0x80, CHR 0x86], [CHR 0xE2, CHR 0x80, CHR 0x87],
      [CHR 0xE2, CHR 0x80, CHR 0x88], [CHR 0xE2, CHR 0x80, CHR 0x89],
      [CHR 0xE2, CHR 0x80, CHR 0x8A],
      [CHR 0xE2, CHR 0x80, CHR 0xA8], [CHR 0xE2, CHR 0x80, CHR 0xA9],
      [CHR 0xE2, CHR 0x80, CHR 0xAF],
      [CHR 0xE2, CHR 0x81, CHR 0x9F],
      [CHR 0xE3, CHR 0x80, CHR 0x80],
      [CHR 0xEF, CHR 0xBB, CHR 0xBF]]"

text \<open>Taking the leading members of \<open>W\<close> off a string, one after the other.\<close>

function strip :: "string list \<Rightarrow> string \<Rightarrow> string" where
  "strip W s =
     (case find (\<lambda>w. w \<noteq> [] \<and> prefix w s) W of
        None \<Rightarrow> s
      | Some w \<Rightarrow> strip W (drop (length w) s))"
  by pat_completeness auto
termination
proof (relation "measure (\<lambda>(W, s). length s)")
  show "wf (measure (\<lambda>(W, s). length s))" by simp
next
  fix W :: "string list" and s w :: string
  assume "find (\<lambda>w. w \<noteq> [] \<and> prefix w s) W = Some w"
  then have "w \<noteq> []" and "prefix w s" by (auto simp: find_Some_iff)
  then have "s \<noteq> []" by auto
  with \<open>w \<noteq> []\<close> show "((W, drop (length w) s), (W, s)) \<in> measure (\<lambda>(W, s). length s)"
    by simp
qed

declare strip.simps [simp del]

definition trimStart :: "string \<Rightarrow> string" where
  "trimStart s = strip white_space s"

definition trimEnd :: "string \<Rightarrow> string" where
  "trimEnd s = rev (strip (map rev white_space) (rev s))"

definition trim :: "string \<Rightarrow> string" where
  "trim s = trimEnd (trimStart s)"

text \<open>\<open>a || b\<close> where \<open>a\<close> is a string or undefined: the empty string is falsy.\<close>

fun js_or :: "string option \<Rightarrow> string \<Rightarrow> string" where
  "js_or None d = d"
| "js_or (Some s) d = (if s = [] then d else s)"

text \<open>
  \<open>encodeURIComponent\<close> keeps the unreserved ASCII characters and writes every other
  byte of the UTF-8 encoding as a percent sign and two capital hexadecimal digits.
\<close>

definition hex_digit :: "nat \<Rightarrow> char" where
  "hex_digit n = ''0123456789ABCDEF'' ! n"

definition unreserved :: "char \<Rightarrow> bool" where
  "unreserved c = (c \<in> set (''ABCDEFGHIJKLMNOPQRSTUVWXYZabcdefghijklmnopqrstuvwxyz0123456789-_.!~*()''
                              @ [CHR 0x27]))"

definition encode_char :: "char \<Rightarrow> string" where
  "encode_char c = (if unreserved c then [c]
     else [CHR ''%'', hex_digit (of_char c div 16), hex_digit (of_char c mod 16)])"

definition encodeURIComponent :: "string \<Rightarrow> string" where
  "encodeURIComponent s = concat (map encode_char s)"

definition buildTripAdvisorSearchUrl :: "string \<Rightarrow> string" where
  "buildTripAdvisorSearchUrl query = ''https://www.tripadvisor.com/Search?q='' @ encodeURIComponent query"

section \<open>The network and the documents it returns\<close>

datatype net_error = Timeout | NetworkError | BadStatus nat

text \<open>
  A parsed HTML document, as the selectors \<open>$('a')\<close> and \<open>$('img')\<close> see it: the anchors
  and the images in document order, an absent attribute being \<open>None\<close>.
\<close>

record anchor =
  a_href :: "string option"
  a_text :: string

record img =
  img_src :: "string option"
  img_data_src :: "string option"
  img_alt :: "string option"

record page =
  page_anchors :: "anchor list"
  page_imgs :: "img list"

text \<open>The JSON of the two encyclopedia calls; every level may be absent.\<close>

record wiki_hit =
  title :: string

record search_query =
  sq_search :: "wiki_hit list option"

record search_data =
  sd_query :: "search_query option"

record image_info =
  ii_url :: "string option"

record wiki_page =
  imageinfo :: "image_info list option"

text \<open>\<open>iq_pages\<close> lists the values of the \<open>pages\<close> object in the order of \<open>Object.values\<close>.\<close>

record images_query =
  iq_pages :: "wiki_page list option"

record images_data =
  id_query :: "images_query option"

text \<open>
  What the code takes from outside. The outcome of each of the four requests a query can
  make: the search page and the place page of the scraped site, by URL, and the two
  encyclopedia calls, by search text and by title; \<open>Inl\<close> is the rejection of
  \<open>axios.get\<close> (timeout, network error, status outside 2xx). And
  \<open>String.prototype.toLowerCase\<close>, which rests on the case tables of Unicode: the
  tables are no part of the repository, so the function is a parameter, and what is
  proved holds whatever it maps a string to.
\<close>

record env =
  search_page :: "string \<Rightarrow> net_error + page"
  place_page :: "string \<Rightarrow> net_error + page"
  wiki_search :: "string \<Rightarrow> net_error + search_data option"
  wiki_images :: "string \<Rightarrow> net_error + images_data option"
  toLowerCase :: "string \<Rightarrow> string"

text \<open>The requests made, in order.\<close>

datatype call = HttpGet string | WikiSearch string | WikiImages string

record descriptor =
  src :: string
  alt :: string

section \<open>The scrape source (fetchTripAdvisorImages)\<close>

text \<open>\<open>Set.prototype.add\<close> on an insertion-ordered set, kept as the list of its elements.\<close>

definition set_add :: "'a list \<Rightarrow> 'a \<Rightarrow> 'a list" where
  "set_add S x = (if x \<in> set S then S else S @ [x])"

text \<open>
  The two tests of the loop over \<open>$('a')\<close>: one of the three patterns occurs in the
  \<open>href\<close>, or the lowercased anchor text contains the lowercased query. \<open>lower\<close>
  is \<open>String.prototype.toLowerCase\<close>.
\<close>

definition path_heuristic :: "string \<Rightarrow> bool" where
  "path_heuristic href = (js_includes href ''Attraction'' \<or> js_includes href ''Attraction_Review''
                           \<or> js_includes href ''-Activities-'')"

definition text_heuristic :: "(string \<Rightarrow> string) \<Rightarrow> string \<Rightarrow> string \<Rightarrow> bool" where
  "text_heuristic lower query text = js_includes text (lower query)"

text \<open>The body of that loop.\<close>

definition candidate_step ::
    "(string \<Rightarrow> string) \<Rightarrow> string \<Rightarrow> string list \<Rightarrow> anchor \<Rightarrow> string list" where
  "candidate_step lower query S a =
     (let href = js_or (a_href a) [];
          text = lower (js_or (Some (a_text a)) [])
      in if href = [] then S
         else
           let S1 = (if path_heuristic href then set_add S href else S)
           in if text_heuristic lower query text then set_add S1 href else S1)"

definition candidateLinks :: "(string \<Rightarrow> string) \<Rightarrow> string \<Rightarrow> anchor list \<Rightarrow> string list" where
  "candidateLinks lower query anchors = foldl (candidate_step lower query) [] anchors"

definition placeHref :: "(string \<Rightarrow> string) \<Rightarrow> string \<Rightarrow> anchor list \<Rightarrow> string option" where
  "placeHref lower query anchors =
     (case candidateLinks lower query anchors of [] \<Rightarrow> None | h # _ \<Rightarrow> Some h)"

definition accept :: "string \<Rightarrow> bool" where
  "accept s = (js_includes s ''media-cdn.tripadvisor.com''
               \<or> js_includes s ''dynamic-media-cdn.tripadvisor.com'')"

text \<open>\<open>src.replace(/photo-s\//, 'photo-l/')\<close>: the leftmost occurrence only.\<close>

fun replace_photo_s :: "string \<Rightarrow> string" where
  "replace_photo_s [] = []"
| "replace_photo_s (c # cs) =
     (if prefix ''photo-s/'' (c # cs) then ''photo-l/'' @ drop 8 (c # cs)
      else c # replace_photo_s cs)"

definition is_digit :: "char \<Rightarrow> bool" where
  "is_digit c = (c \<in> set ''0123456789'')"

text \<open>
  A match of \<open>/\/-w\d+-h\d+\//\<close> at the start of a string, returning what follows the
  match. Each \<open>\d+\<close> is followed by a character that is no digit, so only the whole run
  of digits can match.
\<close>

definition match_wh :: "string \<Rightarrow> string option" where
  "match_wh s =
     (if prefix ''/-w'' s then
        let t = drop 3 s; t1 = dropWhile is_digit t
        in if takeWhile is_digit t \<noteq> [] \<and> prefix ''-h'' t1 then
             let t2 = drop 2 t1; t3 = dropWhile is_digit t2
             in if takeWhile is_digit t2 \<noteq> [] \<and> prefix ''/'' t3 then Some (drop 1 t3)
                else None
           else None
      else None)"

text \<open>\<open>.replace(/\/-w\d+-h\d+\//, '/')\<close>: the leftmost match only.\<close>

fun replace_wh :: "string \<Rightarrow> string" where
  "replace_wh [] = []"
| "replace_wh (c # cs) =
     (case match_wh (c # cs) of Some rest \<Rightarrow> CHR ''/'' # rest | None \<Rightarrow> c # replace_wh cs)"

text \<open>
  The body of the loop over \<open>$2('img')\<close>: \<open>None\<close> where the callback returns early,
  otherwise the object handed to \<open>images.add\<close>. The set holds the \<open>JSON.stringify\<close> of
  \<open>{src, alt}\<close>, which \<open>JSON.parse\<close> inverts, so the set is kept as a set of descriptors.
\<close>

definition img_descriptor :: "img \<Rightarrow> descriptor option" where
  "img_descriptor i =
     (let s = js_or (img_src i) (js_or (img_data_src i) []);
          a = js_or (img_alt i) []
      in if s = [] then None
         else if js_includes s ''data:image'' then None
         else if \<not> accept s then None
         else Some \<lparr>src = replace_wh (replace_photo_s s), alt = a\<rparr>)"

definition image_step :: "descriptor list \<Rightarrow> img \<Rightarrow> descriptor list" where
  "image_step S i = (case img_descriptor i of None \<Rightarrow> S | Some d \<Rightarrow> set_add S d)"

definition images :: "img list \<Rightarrow> descriptor list" where
  "images imgs = foldl image_step [] imgs"

text \<open>\<open>Array.from(images).slice(0, max).map((s) => JSON.parse(s))\<close>.\<close>

definition image_list :: "img list \<Rightarrow> int \<Rightarrow> descriptor list" where
  "image_list imgs mx = slice0 (images imgs) mx"

definition fetchTripAdvisorImages ::
    "env \<Rightarrow> string \<Rightarrow> int \<Rightarrow> call list \<times> (net_error + descriptor list)" where
  "fetchTripAdvisorImages e query mx =
     (let u = buildTripAdvisorSearchUrl query
      in case search_page e u of
           Inl err \<Rightarrow> ([HttpGet u], Inl err)
         | Inr res \<Rightarrow>
             (case placeHref (toLowerCase e) query (page_anchors res) of
                None \<Rightarrow> ([HttpGet u], Inr [])
              | Some h \<Rightarrow>
                  if h = [] then ([HttpGet u], Inr [])
                  else
                    let placeUrl = (if prefix ''http'' h then h
                                    else ''https://www.tripadvisor.com'' @ h)
                    in case place_page e placeUrl of
                         Inl err \<Rightarrow> ([HttpGet u, HttpGet placeUrl], Inl err)
                       | Inr res2 \<Rightarrow>
                           ([HttpGet u, HttpGet placeUrl], Inr (image_list (page_imgs res2) mx))))"

section \<open>The encyclopedia source (fetchWikipediaImages)\<close>

text \<open>\<open>search.data && search.data.query && search.data.query.search && search.data.query.search[0]\<close>.\<close>

definition top_hit :: "search_data option \<Rightarrow> wiki_hit option" where
  "top_hit d =
     (case d of None \<Rightarrow> None
      | Some sd \<Rightarrow>
          (case sd_query sd of None \<Rightarrow> None
           | Some q \<Rightarrow>
               (case sq_search q of None \<Rightarrow> None
                | Some hs \<Rightarrow> (case hs of [] \<Rightarrow> None | h # _ \<Rightarrow> Some h))))"

text \<open>\<open>Object.values((imgs.data && imgs.data.query && imgs.data.query.pages) || {})\<close>.\<close>

definition pages_of :: "images_data option \<Rightarrow> wiki_page list" where
  "pages_of d =
     (case d of None \<Rightarrow> []
      | Some idat \<Rightarrow>
          (case id_query idat of None \<Rightarrow> []
           | Some q \<Rightarrow> (case iq_pages q of None \<Rightarrow> [] | Some ps \<Rightarrow> ps)))"

text \<open>
  \<open>(p.imageinfo && p.imageinfo[0] && p.imageinfo[0].url) || null\<close>, with \<open>None\<close> for the
  values that \<open>filter(Boolean)\<close> then removes.
\<close>

definition page_url :: "wiki_page \<Rightarrow> string option" where
  "page_url p =
     (case imageinfo p of None \<Rightarrow> None
      | Some [] \<Rightarrow> None
      | Some (i # _) \<Rightarrow>
          (case ii_url i of None \<Rightarrow> None | Some u \<Rightarrow> if u = [] then None else Some u))"

text \<open>\<open>/\.(jpg|jpeg|png)$/i.test(u)\<close>.\<close>

definition has_image_ext :: "string \<Rightarrow> bool" where
  "has_image_ext u =
     (suffix ''.jpg'' (ascii_lower u) \<or> suffix ''.jpeg'' (ascii_lower u)
      \<or> suffix ''.png'' (ascii_lower u))"

definition fetchWikipediaImages ::
    "env \<Rightarrow> string \<Rightarrow> int \<Rightarrow> call list \<times> (net_error + descriptor list)" where
  "fetchWikipediaImages e query mx =
     (case wiki_search e query of
        Inl err \<Rightarrow> ([WikiSearch query], Inl err)
      | Inr sdat \<Rightarrow>
          (case top_hit sdat of
             None \<Rightarrow> ([WikiSearch query], Inr [])
           | Some hit \<Rightarrow>
               (case wiki_images e (title hit) of
                  Inl err \<Rightarrow> ([WikiSearch query, WikiImages (title hit)], Inl err)
                | Inr idat \<Rightarrow>
                    let urls = filter has_image_ext (List.map_filter page_url (pages_of idat))
                    in ([WikiSearch query, WikiImages (title hit)],
                        Inr (map (\<lambda>u. \<lparr>src = u, alt = title hit @ '' (Wikipedia)''\<rparr>)
                                 (slice0 urls mx))))))"

section \<open>The endpoint\<close>

text \<open>
  A request carries \<open>q\<close> in its query string, in its body, in both or in neither. The
  response is a status and a JSON body: \<open>{error}\<close>, or \<open>{images}\<close> with or without a
  \<open>fallback\<close> field. \<open>res.json\<close> without \<open>res.status\<close> answers 200.
\<close>

record request =
  query_q :: "string option"
  body_q :: "string option"

datatype json_body = ErrorBody string | ImagesBody "descriptor list" "string option"

record http_response =
  status :: nat
  body :: json_body

text \<open>
  What both handlers do once the query is known to be non-empty; they differ in the
  message of the 500 response only. The inner \<open>try\<close> leaves \<open>imgs\<close> empty when the
  scrape throws; the outer \<open>catch\<close> answers 500 when the encyclopedia call throws.
  Lines written with \<open>console.error\<close> are left out.
\<close>

definition respond :: "string \<Rightarrow> env \<Rightarrow> string \<Rightarrow> call list \<times> http_response" where
  "respond failure_message e query =
     (case fetchTripAdvisorImages e query 10 of
        (calls1, r1) \<Rightarrow>
          let imgs = (case r1 of Inl err \<Rightarrow> [] | Inr xs \<Rightarrow> xs)
          in if length imgs = 0 then
               (case fetchWikipediaImages e query 10 of
                  (calls2, Inr wiki) \<Rightarrow>
                    (calls1 @ calls2,
                     \<lparr>status = 200, body = ImagesBody wiki (Some ''wikipedia'')\<rparr>)
                | (calls2, Inl err) \<Rightarrow>
                    (calls1 @ calls2, \<lparr>status = 500, body = ErrorBody failure_message\<rparr>))
             else (calls1, \<lparr>status = 200, body = ImagesBody imgs None\<rparr>))"

text \<open>The serverless handler, \<open>module.exports\<close> of \<open>api/tripadvisor.js\<close>.\<close>

definition handler_q :: "request \<Rightarrow> string" where
  "handler_q req = js_or (query_q req) (js_or (body_q req) [])"

definition handler :: "env \<Rightarrow> request \<Rightarrow> call list \<times> http_response" where
  "handler e req =
     (let q = handler_q req;
          query = trim (js_or (Some q) [])
      in if query = [] then ([], \<lparr>status = 400, body = ErrorBody ''Missing q''\<rparr>)
         else respond ''Failed to fetch images'' e query)"

text \<open>The Express route, \<open>app.get('/api/tripadvisor', ...)\<close>.\<close>

definition route_q :: "request \<Rightarrow> string" where
  "route_q req = js_or (query_q req) []"

definition app_get_api_tripadvisor :: "env \<Rightarrow> request \<Rightarrow> call list \<times> http_response" where
  "app_get_api_tripadvisor e req =
     (let query = trim (route_q req)
      in if query = [] then ([], \<lparr>status = 400, body = ErrorBody ''Missing q''\<rparr>)
         else respond ''Failed to fetch TripAdvisor images'' e query)"

section \<open>The client of the endpoint\<close>

text \<open>
  \<open>searchTripAdvisorImages\<close> of the page script throws unless the response is \<open>ok\<close>
  (a status from 200 to 299) and otherwise reads \<open>data.images\<close>, taking anything that
  is no array as the empty list. \<open>handleSearch\<close> calls it with \<open>.catch(() => [])\<close>,
  which is \<open>taPhotos\<close>.
\<close>

datatype client_error = FetchFailed

definition searchTripAdvisorImages :: "http_response \<Rightarrow> client_error + descriptor list" where
  "searchTripAdvisorImages res =
     (if \<not> (200 \<le> status res \<and> status res \<le> 299) then Inl FetchFailed
      else case body res of ImagesBody xs f \<Rightarrow> Inr xs | ErrorBody m \<Rightarrow> Inr [])"

definition taPhotos :: "http_response \<Rightarrow> descriptor list" where
  "taPhotos res = (case searchTripAdvisorImages res of Inl err \<Rightarrow> [] | Inr xs \<Rightarrow> xs)"

section \<open>Notions used to state the properties\<close>

text \<open>The images of the scrape as the handler holds them after its inner \<open>try\<close>.\<close>

definition scraped :: "env \<Rightarrow> string \<Rightarrow> descriptor list" where
  "scraped e query =
     (case snd (fetchTripAdvisorImages e query 10) of Inl err \<Rightarrow> [] | Inr xs \<Rightarrow> xs)"

text \<open>
  A string is blank when it is made of white-space characters only, the empty string
  included; a parameter is missing or blank when the request does not carry it or carries
  a blank string.
\<close>

definition blank :: "string \<Rightarrow> bool" where
  "blank s = (\<exists>ws. set ws \<subseteq> set white_space \<and> s = concat ws)"

fun missing_or_blank :: "string option \<Rightarrow> bool" where
  "missing_or_blank None = True"
| "missing_or_blank (Some s) = blank s"

text \<open>The \<open>fallback\<close> field of a response body, \<open>None\<close> when the body has none.\<close>

definition fallback_of :: "http_response \<Rightarrow> string option" where
  "fallback_of r = (case body r of ErrorBody m \<Rightarrow> None | ImagesBody xs f \<Rightarrow> f)"

text \<open>The descriptors handed to \<open>images.add\<close>, in document order, repetitions included.\<close>

definition added :: "img list \<Rightarrow> descriptor list" where
  "added imgs = List.map_filter img_descriptor imgs"

text \<open>The position at which \<open>x\<close> first occurs in \<open>xs\<close>.\<close>

definition first_seen :: "'a list \<Rightarrow> 'a \<Rightarrow> nat" where
  "first_seen xs x = length (takeWhile (\<lambda>y. y \<noteq> x) xs)"

text \<open>The characters a match of \<open>-w\d+-h\d+\<close> is made of.\<close>

definition wh_char :: "char \<Rightarrow> bool" where
  "wh_char c = (is_digit c \<or> c \<in> set ''-wh'')"

text \<open>
  The host of a URL in the usual sense, which the code never computes: what stands
  between the first \<open>//\<close> and the next \<open>/\<close>, \<open>?\<close>, \<open>#\<close> or \<open>:\<close>. A data URI starts
  with \<open>data:\<close>.
\<close>

fun after_slashes :: "string \<Rightarrow> string" where
  "after_slashes [] = []"
| "after_slashes (c # cs) = (if prefix ''//'' (c # cs) then drop 2 (c # cs) else after_slashes cs)"

definition spec_host :: "string \<Rightarrow> string" where
  "spec_host s = takeWhile (\<lambda>c. c \<notin> set ''/?#:'') (after_slashes s)"

definition spec_data_uri :: "string \<Rightarrow> bool" where
  "spec_data_uri s = prefix ''data:'' s"

section \<open>Sample data\<close>

definition mk_photo :: "int \<Rightarrow> int \<Rightarrow> int \<Rightarrow> photo" where
  "mk_photo i w h = \<lparr>photo_id = i, width = w, height = h, photo_url = [], photographer = []\<rparr>"

definition ok_response :: "photo list \<Rightarrow> api_response" where
  "ok_response ps = \<lparr>resp_ok = True, resp_status = 200, resp_text = [], resp_photos = Some ps\<rparr>"

definition eight_photos :: "photo list" where
  "eight_photos =
     [mk_photo 1 3000 2000, mk_photo 2 4000 3000, mk_photo 3 1000 800, mk_photo 4 2000 3000,
      mk_photo 5 6000 4000, mk_photo 6 2500 1600, mk_photo 7 5000 1000, mk_photo 8 2000 1200]"

definition five_small_photos :: "photo list" where
  "five_small_photos =
     [mk_photo 1 800 600, mk_photo 2 640 480, mk_photo 3 1000 800, mk_photo 4 1200 900,
      mk_photo 5 1999 5000]"

definition two_photos :: "photo list" where
  "two_photos = [mk_photo 1 5000 1000, mk_photo 2 2000 1200]"

text \<open>Two photos whose exact areas differ by one and whose computed areas are equal.\<close>

definition wide_photo :: photo where
  "wide_photo = mk_photo 1 134217731 67108864"

definition tall_photo :: photo where
  "tall_photo = mk_photo 2 134217729 67108865"

definition huge_photos :: "photo list" where
  "huge_photos =
     [wide_photo, tall_photo, mk_photo 3 3000 2000, mk_photo 4 4000 3000, mk_photo 5 2500 1600]"

definition env_of ::
    "net_error + page \<Rightarrow> net_error + page \<Rightarrow> net_error + search_data option
      \<Rightarrow> net_error + images_data option \<Rightarrow> env" where
  "env_of a b c d =
     \<lparr>search_page = (\<lambda>u. a), place_page = (\<lambda>u. b), wiki_search = (\<lambda>t. c), wiki_images = (\<lambda>t. d),
      toLowerCase = ascii_lower\<rparr>"

definition get_q :: "string \<Rightarrow> request" where
  "get_q s = \<lparr>query_q = Some s, body_q = None\<rparr>"

definition eiffel_search_page :: page where
  "eiffel_search_page =
     \<lparr>page_anchors =
        [\<lparr>a_href = None, a_text = ''Eiffel Tower tickets''\<rparr>,
         \<lparr>a_href = Some ''/Hotels-g187147-Paris.html'', a_text = ''Hotels''\<rparr>,
         \<lparr>a_href = Some ''/Attraction_Review-g187147-d188151-Eiffel_Tower.html'',
          a_text = ''Eiffel Tower''\<rparr>,
         \<lparr>a_href = Some ''/Attractions-g187147-Activities-Paris.html'', a_text = ''Things to do''\<rparr>],
      page_imgs = []\<rparr>"

definition plain_search_page :: page where
  "plain_search_page =
     \<lparr>page_anchors =
        [\<lparr>a_href = None, a_text = ''Eiffel Tower tickets''\<rparr>,
         \<lparr>a_href = Some ''/Hotels-g187147-Paris.html'', a_text = ''Hotels''\<rparr>],
      page_imgs = []\<rparr>"

definition eiffel_imgs :: "img list" where
  "eiffel_imgs =
     [\<lparr>img_src = Some ''https://media-cdn.tripadvisor.com/media/photo-s/01/02/a.jpg'',
       img_data_src = None, img_alt = Some ''Eiffel''\<rparr>,
      \<lparr>img_src = Some ''data:image/gif;base64,R0lGOD'', img_data_src = None, img_alt = None\<rparr>,
      \<lparr>img_src = None,
       img_data_src = Some ''https://dynamic-media-cdn.tripadvisor.com/media/photo-o/0a/-w100-h100/b.jpg'',
       img_alt = None\<rparr>,
      \<lparr>img_src = Some ''https://media-cdn.tripadvisor.com/media/photo-l/01/02/a.jpg'',
       img_data_src = None, img_alt = Some ''Eiffel''\<rparr>,
      \<lparr>img_src = Some ''https://example.org/logo.png'', img_data_src = None, img_alt = Some ''logo''\<rparr>]"

definition eiffel_place_page :: page where
  "eiffel_place_page = \<lparr>page_anchors = [], page_imgs = eiffel_imgs\<rparr>"

definition foreign_imgs :: "img list" where
  "foreign_imgs =
     [\<lparr>img_src = Some ''https://example.org/media-cdn.tripadvisor.com/a.jpg'',
       img_data_src = None, img_alt = None\<rparr>,
      \<lparr>img_src = Some ''data:text/plain,media-cdn.tripadvisor.com'',
       img_data_src = None, img_alt = None\<rparr>]"

definition eiffel_search_data :: "search_data option" where
  "eiffel_search_data = Some \<lparr>sd_query = Some \<lparr>sq_search = Some [\<lparr>title = ''Eiffel Tower''\<rparr>]\<rparr>\<rparr>"

definition no_hits_data :: "search_data option" where
  "no_hits_data = Some \<lparr>sd_query = Some \<lparr>sq_search = Some []\<rparr>\<rparr>"

definition eiffel_images_data :: "images_data option" where
  "eiffel_images_data =
     Some \<lparr>id_query = Some \<lparr>iq_pages = Some
       [\<lparr>imageinfo = Some [\<lparr>ii_url = Some ''https://upload.wikimedia.org/a/Tour_Eiffel.JPG''\<rparr>]\<rparr>,
        \<lparr>imageinfo = Some [\<lparr>ii_url = Some ''https://upload.wikimedia.org/b/Commons-logo.svg''\<rparr>]\<rparr>,
        \<lparr>imageinfo = None\<rparr>,
        \<lparr>imageinfo = Some [\<lparr>ii_url = Some ''https://upload.wikimedia.org/c/Eiffel.png''\<rparr>]\<rparr>]\<rparr>\<rparr>"

text \<open>
  Four worlds: everything answers; the scraped site times out; every request times out;
  the search page has no candidate link and the encyclopedia has no hit. The sample texts
  are ASCII, where \<open>toLowerCase\<close> maps the capitals A to Z to their small letters.
\<close>

definition eiffel_env :: env where
  "eiffel_env = env_of (Inr eiffel_search_page) (Inr eiffel_place_page)
                       (Inr eiffel_search_data) (Inr eiffel_images_data)"

definition scrape_down_env :: env where
  "scrape_down_env = env_of (Inl Timeout) (Inl Timeout) (Inr eiffel_search_data) (Inr eiffel_images_data)"

definition all_down_env :: env where
  "all_down_env = env_of (Inl Timeout) (Inl Timeout) (Inl Timeout) (Inl Timeout)"

definition nothing_env :: env where
  "nothing_env = env_of (Inr plain_search_page) (Inl NetworkError) (Inr no_hits_data) (Inr None)"


section \<open>Properties of the sort\<close>

lemma js_insert_by_area: "js_insert by_area_desc x ys = insort_key (\<lambda>p. - js_area p) x ys"
  by (induction ys) (simp_all add: by_area_desc_def js_area_def)

lemma js_sort_by_area: "js_sort by_area_desc xs = sort_key (\<lambda>p. - js_area p) xs"
proof -
  have "js_insert by_area_desc = insort_key (\<lambda>p. - js_area p)"
    by (intro ext) (rule js_insert_by_area)
  then show ?thesis by (simp add: js_sort_def sort_key_def)
qed

lemma length_js_sort: "length (js_sort by_area_desc xs) = length xs"
  by (simp add: js_sort_by_area)

lemma set_js_sort: "set (js_sort by_area_desc xs) = set xs"
  by (simp add: js_sort_by_area)

lemma mset_js_sort: "mset (js_sort by_area_desc xs) = mset xs"
  by (simp add: js_sort_by_area)

lemma js_sort_descending: "sorted_wrt (\<lambda>a b. js_area a \<ge> js_area b) (js_sort by_area_desc xs)"
proof -
  have "sorted (map (\<lambda>p. - js_area p) (sort_key (\<lambda>p. - js_area p) xs))"
    by (rule sorted_sort_key)
  then show ?thesis
    by (simp add: js_sort_by_area sorted_map)
qed

lemma js_sort_stable:
  "filter (\<lambda>p. js_area p = k) (js_sort by_area_desc xs) = filter (\<lambda>p. js_area p = k) xs"
proof -
  have "filter (\<lambda>p. - js_area p = - k) (sort_key (\<lambda>p. - js_area p) xs)
        = filter (\<lambda>p. - js_area p = - k) xs"
    by (rule sort_key_stable)
  then show ?thesis by (simp add: js_sort_by_area)
qed

text \<open>Below \<open>2^53\<close> every integer is a double, and a product is computed exactly.\<close>

lemma to_double_exact: "\<bar>n\<bar> < 2 ^ 53 \<Longrightarrow> to_double n = n"
proof -
  assume a: "\<bar>n\<bar> < 2 ^ 53"
  then have r: "round53 \<bar>n\<bar> = \<bar>n\<bar>" by (simp add: round53_def)
  have "(2::int) ^ 53 \<le> 2 ^ 1024" by (rule power_increasing) simp_all
  with a have "min \<bar>n\<bar> (2 ^ 1024) = \<bar>n\<bar>" by linarith
  with r have "to_double n = sgn n * \<bar>n\<bar>" by (simp add: to_double_def)
  then show ?thesis by (simp add: mult_sgn_abs)
qed

lemma js_area_large:
  assumes "isLarge p" and "width p * height p < 2 ^ 53"
  shows "js_area p = area p"
proof -
  from assms(1) have "0 \<le> width p" "0 \<le> height p" by (simp_all add: isLarge_def)
  then have "0 \<le> width p * height p" by simp
  with assms(2) have "\<bar>width p * height p\<bar> < 2 ^ 53" by simp
  then show ?thesis unfolding js_area_def area_def by (rule to_double_exact)
qed

text \<open>Above \<open>2^53\<close> two different areas can be computed as the same number.\<close>

lemma computed_areas_collide:
  "area wide_photo = 9007199456067584 \<and> area tall_photo = 9007199456067585
   \<and> js_area wide_photo = 9007199456067584 \<and> js_area tall_photo = 9007199456067584"
  by code_simp

lemma slice0_nat [simp]: "slice0 xs (int n) = take n xs"
  by (simp add: slice0_def)

lemma slice0_5 [simp]: "slice0 xs 5 = take 5 xs"
  by (simp add: slice0_def)

lemma slice0_prefix: "prefix (slice0 xs n) xs"
  by (simp add: slice0_def take_is_prefix)

lemma slice0_length: "0 \<le> n \<Longrightarrow> int (length (slice0 xs n)) \<le> n"
  by (simp add: slice0_def)

section \<open>The curated selection\<close>

text \<open>With a key and a successful response, the outcome is one of the two selections.\<close>

lemma searchPhotos_ok:
  assumes "API_KEY \<noteq> []" "resp_ok r" "resp_photos r = Some ps"
  shows "searchPhotos API_KEY r =
     Inr (if 5 \<le> length (filter isLarge ps) then take 5 (js_sort by_area_desc (filter isLarge ps))
          else take 5 (js_sort by_area_desc (filter isLarge ps)
                       @ take (max 5 (length (filter isLarge ps))) (js_sort by_area_desc ps)))"
proof -
  have m: "max 5 (int n) = int (max 5 n)" for n by simp
  show ?thesis
    using assms by (simp add: searchPhotos_def Let_def length_js_sort m del: of_nat_max)
qed

text \<open>
  C1. Whenever the key is set, the request succeeded and the response lists at least five
  photos, of any resolution, \<open>searchPhotos\<close> returns a list of exactly five photos.
\<close>

theorem searchPhotos_exactly_five:
  assumes "API_KEY \<noteq> []" and "resp_ok r" and "resp_photos r = Some ps" and "5 \<le> length ps"
  shows "\<exists>out. searchPhotos API_KEY r = Inr out \<and> length out = 5"
  using assms(4) by (simp add: searchPhotos_ok[OF assms(1-3)] length_js_sort)

theorem searchPhotos_exactly_five_witness:
  "''key'' \<noteq> [] \<and> resp_ok (ok_response five_small_photos)
   \<and> resp_photos (ok_response five_small_photos) = Some five_small_photos
   \<and> 5 \<le> length five_small_photos
   \<and> (\<exists>out. searchPhotos ''key'' (ok_response five_small_photos) = Inr out \<and> length out = 5)"
proof -
  have h1: "''key'' \<noteq> []" by simp
  have h2: "resp_ok (ok_response five_small_photos)" by (simp add: ok_response_def)
  have h3: "resp_photos (ok_response five_small_photos) = Some five_small_photos"
    by (simp add: ok_response_def)
  have h4: "5 \<le> length five_small_photos" by (simp add: five_small_photos_def)
  from searchPhotos_exactly_five[OF h1 h2 h3 h4] h1 h2 h3 h4 show ?thesis by blast
qed

text \<open>
  Two large photos whose computed areas are equal stay in the order of the response, here
  with the smaller exact area first: the bound of C2 below cannot be dropped.
\<close>

lemma searchPhotos_huge:
  "searchPhotos ''key'' (ok_response huge_photos) =
     Inr [wide_photo, tall_photo, mk_photo 4 4000 3000, mk_photo 3 3000 2000, mk_photo 5 2500 1600]
   \<and> area wide_photo < area tall_photo"
  by code_simp

text \<open>
  With at least five large photos the result is the first five of the large ones in the
  stable descending order of the areas as computed.
\<close>

lemma five_large_computed:
  assumes "API_KEY \<noteq> []" and "resp_ok r" and "resp_photos r = Some ps"
    and "5 \<le> length (filter isLarge ps)"
  shows "\<exists>out. searchPhotos API_KEY r = Inr out \<and> length out = 5
           \<and> mset out \<subseteq># mset (filter isLarge ps)
           \<and> sorted_wrt (\<lambda>a b. js_area a \<ge> js_area b) out
           \<and> (\<forall>k. prefix (filter (\<lambda>p. js_area p = k) out)
                         (filter (\<lambda>p. js_area p = k) (filter isLarge ps)))
           \<and> (\<forall>p \<in># mset (filter isLarge ps) - mset out. \<forall>q \<in> set out. js_area p \<le> js_area q)"
proof -
  define S where "S = js_sort by_area_desc (filter isLarge ps)"
  define out where "out = take 5 S"
  have res: "searchPhotos API_KEY r = Inr out"
    using assms(4) by (simp add: searchPhotos_ok[OF assms(1-3)] out_def S_def)
  have lenS: "length S = length (filter isLarge ps)"
    by (simp add: S_def length_js_sort)
  have len: "length out = 5"
    using assms(4) lenS by (simp add: out_def)
  have split: "S = out @ drop 5 S"
    by (simp add: out_def)
  have msetS: "mset S = mset (filter isLarge ps)"
    by (simp add: S_def mset_js_sort)
  have sub: "mset out \<subseteq># mset (filter isLarge ps)"
    unfolding msetS[symmetric] by (metis split mset_append mset_subset_eq_add_left)
  have sortedS: "sorted_wrt (\<lambda>a b. js_area a \<ge> js_area b) S"
    unfolding S_def by (rule js_sort_descending)
  have sorted_out: "sorted_wrt (\<lambda>a b. js_area a \<ge> js_area b) out"
    unfolding out_def using sortedS by (rule sorted_wrt_take)
  have stable: "prefix (filter (\<lambda>p. js_area p = k) out)
                       (filter (\<lambda>p. js_area p = k) (filter isLarge ps))" for k
  proof -
    have "filter (\<lambda>p. js_area p = k) S = filter (\<lambda>p. js_area p = k) (filter isLarge ps)"
      unfolding S_def by (rule js_sort_stable)
    moreover have "filter (\<lambda>p. js_area p = k) S
        = filter (\<lambda>p. js_area p = k) out @ filter (\<lambda>p. js_area p = k) (drop 5 S)"
      by (subst split) simp
    ultimately show ?thesis by (metis prefixI)
  qed
  have rest: "mset (filter isLarge ps) - mset out = mset (drop 5 S)"
    unfolding msetS[symmetric] by (metis split mset_append add_diff_cancel_left')
  have top: "\<forall>p \<in># mset (filter isLarge ps) - mset out. \<forall>q \<in> set out. js_area p \<le> js_area q"
  proof -
    have "sorted_wrt (\<lambda>a b. js_area a \<ge> js_area b) (out @ drop 5 S)"
      using sortedS split by simp
    then have "\<forall>q \<in> set out. \<forall>p \<in> set (drop 5 S). js_area p \<le> js_area q"
      by (simp add: sorted_wrt_append)
    then show ?thesis unfolding rest by auto
  qed
  from res len sub sorted_out stable top show ?thesis by blast
qed

text \<open>
  C2. Whenever at least five photos of the response are large, and the area
  \<open>width * height\<close> of every large photo is below \<open>2^53\<close>, so that the code computes it
  exactly, \<open>searchPhotos\<close> returns exactly five photos; they are taken from the large ones
  (none more often than it occurs there); they are in descending order of area; photos of
  equal area appear in the order the response had them, as an initial part of the large
  photos of that area; and no large photo left out has a greater area than one returned.
\<close>

theorem searchPhotos_five_large:
  assumes "API_KEY \<noteq> []" and "resp_ok r" and "resp_photos r = Some ps"
    and "5 \<le> length (filter isLarge ps)"
    and "\<forall>p \<in> set ps. isLarge p \<longrightarrow> width p * height p < 2 ^ 53"
  shows "\<exists>out. searchPhotos API_KEY r = Inr out \<and> length out = 5
           \<and> mset out \<subseteq># mset (filter isLarge ps)
           \<and> sorted_wrt (\<lambda>a b. area a \<ge> area b) out
           \<and> (\<forall>k. prefix (filter (\<lambda>p. area p = k) out) (filter (\<lambda>p. area p = k) (filter isLarge ps)))
           \<and> (\<forall>p \<in># mset (filter isLarge ps) - mset out. \<forall>q \<in> set out. area p \<le> area q)"
proof -
  from five_large_computed[OF assms(1-4)] obtain out where
    res: "searchPhotos API_KEY r = Inr out" and len: "length out = 5"
    and sub: "mset out \<subseteq># mset (filter isLarge ps)"
    and srt: "sorted_wrt (\<lambda>a b. js_area a \<ge> js_area b) out"
    and stb: "\<And>k. prefix (filter (\<lambda>p. js_area p = k) out)
                         (filter (\<lambda>p. js_area p = k) (filter isLarge ps))"
    and top: "\<forall>p \<in># mset (filter isLarge ps) - mset out. \<forall>q \<in> set out. js_area p \<le> js_area q"
    by blast
  have exact: "js_area p = area p" if "p \<in> set (filter isLarge ps)" for p
    using that assms(5) by (auto intro: js_area_large)
  have out_large: "set out \<subseteq> set (filter isLarge ps)"
    using sub by (metis set_mset_mono set_mset_mset)
  have out_exact: "js_area p = area p" if "p \<in> set out" for p
    using that out_large exact by blast
  have srt': "sorted_wrt (\<lambda>a b. area a \<ge> area b) out"
    using srt by (rule sorted_wrt_mono_rel[rotated]) (simp add: out_exact)
  have stb': "prefix (filter (\<lambda>p. area p = k) out) (filter (\<lambda>p. area p = k) (filter isLarge ps))"
    for k
  proof -
    have "filter (\<lambda>p. area p = k) out = filter (\<lambda>p. js_area p = k) out"
      by (rule filter_cong) (simp_all add: out_exact)
    moreover have "filter (\<lambda>p. area p = k) (filter isLarge ps)
        = filter (\<lambda>p. js_area p = k) (filter isLarge ps)"
      by (rule filter_cong) (simp_all add: exact)
    ultimately show ?thesis using stb[of k] by simp
  qed
  have top': "\<forall>p \<in># mset (filter isLarge ps) - mset out. \<forall>q \<in> set out. area p \<le> area q"
  proof (intro ballI)
    fix p q
    assume p: "p \<in># mset (filter isLarge ps) - mset out" and q: "q \<in> set out"
    from p have "p \<in> set (filter isLarge ps)" by (auto dest: in_diffD)
    then have "js_area p = area p" by (rule exact)
    moreover from q have "js_area q = area q" by (rule out_exact)
    moreover from top p q have "js_area p \<le> js_area q" by blast
    ultimately show "area p \<le> area q" by simp
  qed
  from res len sub srt' stb' top' show ?thesis by blast
qed

lemma large_of_eight:
  "filter isLarge eight_photos =
     [mk_photo 1 3000 2000, mk_photo 2 4000 3000, mk_photo 4 2000 3000,
      mk_photo 5 6000 4000, mk_photo 6 2500 1600, mk_photo 8 2000 1200]"
  by (simp add: eight_photos_def isLarge_def mk_photo_def)

theorem searchPhotos_five_large_witness:
  "''key'' \<noteq> [] \<and> resp_ok (ok_response eight_photos)
   \<and> resp_photos (ok_response eight_photos) = Some eight_photos
   \<and> 5 \<le> length (filter isLarge eight_photos)
   \<and> list_all (\<lambda>p. width p * height p < 2 ^ 53) (filter isLarge eight_photos)
   \<and> (\<exists>out. searchPhotos ''key'' (ok_response eight_photos) = Inr out \<and> length out = 5
           \<and> mset out \<subseteq># mset (filter isLarge eight_photos)
           \<and> sorted_wrt (\<lambda>a b. area a \<ge> area b) out
           \<and> (\<forall>k. prefix (filter (\<lambda>p. area p = k) out)
                         (filter (\<lambda>p. area p = k) (filter isLarge eight_photos)))
           \<and> (\<forall>p \<in># mset (filter isLarge eight_photos) - mset out. \<forall>q \<in> set out. area p \<le> area q))"
proof -
  have h1: "''key'' \<noteq> []" by simp
  have h2: "resp_ok (ok_response eight_photos)" by (simp add: ok_response_def)
  have h3: "resp_photos (ok_response eight_photos) = Some eight_photos"
    by (simp add: ok_response_def)
  have h4: "5 \<le> length (filter isLarge eight_photos)" by (simp add: large_of_eight)
  have h5: "list_all (\<lambda>p. width p * height p < 2 ^ 53) (filter isLarge eight_photos)"
    by (simp add: large_of_eight mk_photo_def)
  then have h5': "\<forall>p \<in> set eight_photos. isLarge p \<longrightarrow> width p * height p < 2 ^ 53"
    by (simp add: list_all_iff)
  from searchPhotos_five_large[OF h1 h2 h3 h4 h5'] h1 h2 h3 h4 h5 show ?thesis by blast
qed

text \<open>The run behind that witness: photos 1 and 4 tie at 6000000 and keep their order.\<close>

lemma searchPhotos_eight:
  "searchPhotos ''key'' (ok_response eight_photos) =
     Inr [mk_photo 5 6000 4000, mk_photo 2 4000 3000, mk_photo 1 3000 2000,
          mk_photo 4 2000 3000, mk_photo 6 2500 1600]"
  by (simp add: searchPhotos_def ok_response_def large_of_eight js_sort_def by_area_desc_def
      mk_photo_def to_double_def round53_def)

text \<open>
  Among the first \<open>m\<close> elements of a list with fewer than \<open>m\<close> elements failing \<open>P\<close>,
  one satisfies \<open>P\<close>.
\<close>

lemma some_large_in_take:
  assumes "length (filter (\<lambda>p. \<not> P p) S) < m" and "m \<le> length S"
  shows "\<exists>x \<in> set (take m S). P x"
proof (rule ccontr)
  assume "\<not> (\<exists>x \<in> set (take m S). P x)"
  then have "filter (\<lambda>p. \<not> P p) (take m S) = take m S"
    by (simp add: filter_id_conv)
  moreover have "S = take m S @ drop m S" by simp
  then have "length (filter (\<lambda>p. \<not> P p) S)
       = length (filter (\<lambda>p. \<not> P p) (take m S)) + length (filter (\<lambda>p. \<not> P p) (drop m S))"
    by (metis filter_append length_append)
  ultimately have "m \<le> length (filter (\<lambda>p. \<not> P p) S)"
    using assms(2) by simp
  with assms(1) show False by simp
qed

text \<open>
  C10. Whenever the response lists fewer than five photos and at least one of them is
  large, the list \<open>searchPhotos\<close> returns holds some photo twice: the backfill sorts all
  the photos, the large ones included, and follows the large ones unchanged.
\<close>

theorem searchPhotos_backfill_duplicates:
  assumes "API_KEY \<noteq> []" and "resp_ok r" and "resp_photos r = Some ps"
    and "length ps < 5" and "\<exists>p \<in> set ps. isLarge p"
  shows "\<exists>out. searchPhotos API_KEY r = Inr out \<and> \<not> distinct out"
proof -
  define F where "F = js_sort by_area_desc (filter isLarge ps)"
  define S where "S = js_sort by_area_desc ps"
  define k where "k = length (filter isLarge ps)"
  define m where "m = min (length ps) (5 - k)"
  have lenF: "length F = k" by (simp add: F_def k_def length_js_sort)
  have lenS: "length S = length ps" by (simp add: S_def length_js_sort)
  have k_le: "k \<le> length ps" by (simp add: k_def)
  have k_pos: "0 < k" using assms(5) by (auto simp: k_def filter_empty_conv)
  have k5: "k < 5" using k_le assms(4) by simp
  have out: "searchPhotos API_KEY r = Inr (F @ take (5 - k) S)"
    using k5 lenS assms(4)
    by (simp add: searchPhotos_ok[OF assms(1-3)] F_def[symmetric] S_def[symmetric]
        k_def[symmetric] lenF max_def)
  have "mset (filter (\<lambda>p. \<not> isLarge p) S) = filter_mset (\<lambda>p. \<not> isLarge p) (mset ps)"
    by (simp add: S_def mset_js_sort)
  then have "length (filter (\<lambda>p. \<not> isLarge p) S) = length (filter (\<lambda>p. \<not> isLarge p) ps)"
    by (metis mset_filter size_mset)
  moreover have "length ps = length (filter isLarge ps) + length (filter (\<lambda>p. \<not> isLarge p) ps)"
    by (rule sum_length_filter_compl[symmetric])
  ultimately have small: "length (filter (\<lambda>p. \<not> isLarge p) S) = length ps - k"
    by (simp add: k_def)
  have "length ps - k < m" using k_pos k_le assms(4) by (auto simp: m_def min_def)
  with small have "length (filter (\<lambda>p. \<not> isLarge p) S) < m" by simp
  moreover have "m \<le> length S" by (simp add: m_def lenS)
  ultimately obtain x where x: "x \<in> set (take m S)" "isLarge x"
    using some_large_in_take by blast
  have "take m S = take (5 - k) S" by (simp add: m_def lenS min_def)
  with x have x1: "x \<in> set (take (5 - k) S)" by simp
  then have "x \<in> set S" by (rule in_set_takeD)
  then have "x \<in> set ps" by (simp add: S_def set_js_sort)
  with x(2) have "x \<in> set F" by (simp add: F_def set_js_sort)
  with x1 have "\<not> distinct (F @ take (5 - k) S)" by auto
  with out show ?thesis by blast
qed

theorem searchPhotos_backfill_duplicates_witness:
  "''key'' \<noteq> [] \<and> resp_ok (ok_response two_photos)
   \<and> resp_photos (ok_response two_photos) = Some two_photos
   \<and> length two_photos < 5 \<and> (\<exists>p \<in> set two_photos. isLarge p)
   \<and> (\<exists>out. searchPhotos ''key'' (ok_response two_photos) = Inr out \<and> \<not> distinct out)"
proof -
  have h1: "''key'' \<noteq> []" by simp
  have h2: "resp_ok (ok_response two_photos)" by (simp add: ok_response_def)
  have h3: "resp_photos (ok_response two_photos) = Some two_photos"
    by (simp add: ok_response_def)
  have h4: "length two_photos < 5" by (simp add: two_photos_def)
  have h5: "\<exists>p \<in> set two_photos. isLarge p"
    by (simp add: two_photos_def isLarge_def mk_photo_def)
  from searchPhotos_backfill_duplicates[OF h1 h2 h3 h4 h5] h1 h2 h3 h4 h5 show ?thesis by blast
qed

text \<open>The run behind that witness: photo 2, the large one, comes first and again last.\<close>

lemma searchPhotos_two:
  "searchPhotos ''key'' (ok_response two_photos) =
     Inr [mk_photo 2 2000 1200, mk_photo 1 5000 1000, mk_photo 2 2000 1200]"
  by (simp add: searchPhotos_def ok_response_def two_photos_def isLarge_def js_sort_def
      by_area_desc_def mk_photo_def to_double_def round53_def)

section \<open>Blank strings\<close>

lemma strip_Nil [simp]: "strip W [] = []"
proof -
  have "find (\<lambda>w. w \<noteq> [] \<and> prefix w []) W = None" by (simp add: find_None_iff)
  then show ?thesis by (subst strip.simps) (simp only: option.case)
qed

text \<open>What \<open>strip\<close> takes off is a sequence of members of \<open>W\<close>.\<close>

lemma strip_decomp: "\<exists>us. set us \<subseteq> set W \<and> s = concat us @ strip W s"
proof (induction W s rule: strip.induct)
  case (1 W s)
  show ?case
  proof (cases "find (\<lambda>w. w \<noteq> [] \<and> prefix w s) W")
    case None
    then have "strip W s = s" by (subst strip.simps) simp
    then have "set [] \<subseteq> set W \<and> s = concat [] @ strip W s" by simp
    then show ?thesis by blast
  next
    case (Some w)
    then have w: "w \<in> set W" "prefix w s" by (auto simp: find_Some_iff)
    from Some have st: "strip W s = strip W (drop (length w) s)" by (subst strip.simps) simp
    from "1.IH"[OF Some] obtain us where
      us: "set us \<subseteq> set W" "drop (length w) s = concat us @ strip W (drop (length w) s)" by blast
    from w(2) have "s = w @ drop (length w) s" by (auto simp: prefix_def)
    with us(2) st have "s = concat (w # us) @ strip W s" by simp
    moreover from w(1) us(1) have "set (w # us) \<subseteq> set W" by simp
    ultimately show ?thesis by blast
  qed
qed

text \<open>
  Where no member of \<open>W\<close> is empty or starts another, \<open>strip\<close> takes a sequence of
  members off whole.
\<close>

lemma strip_concat:
  assumes "\<forall>w \<in> set W. w \<noteq> []"
    and "\<forall>w \<in> set W. \<forall>v \<in> set W. prefix v w \<longrightarrow> v = w"
    and "set ws \<subseteq> set W"
  shows "strip W (concat ws) = []"
  using assms(3)
proof (induction ws)
  case Nil
  then show ?case by simp
next
  case (Cons w ws)
  then have w: "w \<in> set W" and ws: "set ws \<subseteq> set W" by simp_all
  from w assms(1) have ne: "w \<noteq> []" by blast
  let ?s = "concat (w # ws)"
  have pw: "prefix w ?s" by simp
  with w ne have "\<exists>x \<in> set W. x \<noteq> [] \<and> prefix x ?s" by blast
  then obtain v where v: "find (\<lambda>x. x \<noteq> [] \<and> prefix x ?s) W = Some v"
    by (cases "find (\<lambda>x. x \<noteq> [] \<and> prefix x ?s) W") (auto simp: find_None_iff)
  then have vW: "v \<in> set W" and pv: "prefix v ?s" by (auto simp: find_Some_iff)
  from pv pw have "prefix v w \<or> prefix w v" by (rule prefix_same_cases)
  with assms(2) w vW have "v = w" by blast
  from v have "strip W ?s = strip W (drop (length v) ?s)" by (subst strip.simps) simp
  also have "drop (length v) ?s = concat ws" using \<open>v = w\<close> by simp
  finally show ?case using Cons.IH[OF ws] by simp
qed

lemma white_space_nonempty: "w \<in> set white_space \<Longrightarrow> w \<noteq> []"
  by (auto simp: white_space_def)

lemma white_space_prefix_free:
  "\<forall>w \<in> set white_space. \<forall>v \<in> set white_space. prefix v w \<longrightarrow> v = w"
  by code_simp

lemma blank_Nil [simp]: "blank []"
  unfolding blank_def by (rule exI[of _ "[]"]) simp

lemma blank_append: "blank s \<Longrightarrow> blank t \<Longrightarrow> blank (s @ t)"
proof -
  assume "blank s" "blank t"
  then obtain us vs where "set us \<subseteq> set white_space" "s = concat us"
    "set vs \<subseteq> set white_space" "t = concat vs" unfolding blank_def by blast
  then have "set (us @ vs) \<subseteq> set white_space \<and> s @ t = concat (us @ vs)" by simp
  then show ?thesis unfolding blank_def by blast
qed

lemma trimStart_blank: "blank s \<Longrightarrow> trimStart s = []"
proof -
  assume "blank s"
  then obtain ws where ws: "set ws \<subseteq> set white_space" "s = concat ws"
    unfolding blank_def by blast
  have "strip white_space (concat ws) = []"
    using _ white_space_prefix_free ws(1)
    by (rule strip_concat) (simp add: white_space_nonempty)
  with ws(2) show ?thesis by (simp add: trimStart_def)
qed

lemma trimEnd_Nil_blank:
  assumes "trimEnd t = []"
  shows "blank t"
proof -
  from assms have z: "strip (map rev white_space) (rev t) = []" by (simp add: trimEnd_def)
  from strip_decomp[of "map rev white_space" "rev t"] obtain us where
    us: "set us \<subseteq> set (map rev white_space)" "rev t = concat us @ strip (map rev white_space) (rev t)"
    by blast
  from us(2) z have "rev t = concat us" by simp
  then have "t = rev (concat us)" by (metis rev_rev_ident)
  then have t: "t = concat (map rev (rev us))" by (simp add: rev_concat)
  from us(1) have "set (map rev (rev us)) \<subseteq> set white_space" by force
  with t show ?thesis unfolding blank_def by blast
qed

text \<open>A string trims to the empty string exactly when it is blank.\<close>

lemma trim_Nil_iff: "(trim s = []) = blank s"
proof
  assume "trim s = []"
  then have b: "blank (trimStart s)" unfolding trim_def by (rule trimEnd_Nil_blank)
  from strip_decomp[of white_space s] obtain us where
    us: "set us \<subseteq> set white_space" "s = concat us @ trimStart s"
    unfolding trimStart_def by blast
  from us(1) have "blank (concat us)" unfolding blank_def by blast
  from blank_append[OF this b] us(2) show "blank s" by simp
next
  assume "blank s"
  then have "trimStart s = []" by (rule trimStart_blank)
  then show "trim s = []" by (simp add: trim_def trimEnd_def)
qed

section \<open>The endpoint: which source answers\<close>

lemma js_or_Some_Nil [simp]: "js_or (Some q) [] = q"
  by simp

lemma scrape_calls_http:
  assumes "c \<in> set (fst (fetchTripAdvisorImages e query mx))"
  shows "\<exists>u. c = HttpGet u"
  using assms
  by (auto simp: fetchTripAdvisorImages_def Let_def split: sum.splits option.splits if_splits)

lemma wiki_calls_first: "WikiSearch query \<in> set (fst (fetchWikipediaImages e query mx))"
  by (simp add: fetchWikipediaImages_def Let_def split: sum.splits option.splits)

lemma respond_scraped:
  assumes "scraped e query \<noteq> []"
  shows "respond m e query =
           (fst (fetchTripAdvisorImages e query 10),
            \<lparr>status = 200, body = ImagesBody (scraped e query) None\<rparr>)"
proof -
  obtain c1 r1 where f: "fetchTripAdvisorImages e query 10 = (c1, r1)"
    by (cases "fetchTripAdvisorImages e query 10")
  show ?thesis
    using assms by (cases r1) (simp_all add: respond_def scraped_def f)
qed

lemma respond_fallback:
  assumes "scraped e query = []"
  shows "respond m e query =
           (fst (fetchTripAdvisorImages e query 10) @ fst (fetchWikipediaImages e query 10),
            case snd (fetchWikipediaImages e query 10) of
              Inr wiki \<Rightarrow> \<lparr>status = 200, body = ImagesBody wiki (Some ''wikipedia'')\<rparr>
            | Inl err \<Rightarrow> \<lparr>status = 500, body = ErrorBody m\<rparr>)"
proof -
  obtain c1 r1 where f: "fetchTripAdvisorImages e query 10 = (c1, r1)"
    by (cases "fetchTripAdvisorImages e query 10")
  obtain c2 r2 where w: "fetchWikipediaImages e query 10 = (c2, r2)"
    by (cases "fetchWikipediaImages e query 10")
  show ?thesis
    using assms by (cases r1; cases r2) (simp_all add: respond_def scraped_def f w)
qed

lemma handler_nonblank:
  "trim (handler_q req) \<noteq> [] \<Longrightarrow>
     handler e req = respond ''Failed to fetch images'' e (trim (handler_q req))"
  by (simp add: handler_def Let_def)

lemma route_nonblank:
  "trim (route_q req) \<noteq> [] \<Longrightarrow>
     app_get_api_tripadvisor e req =
       respond ''Failed to fetch TripAdvisor images'' e (trim (route_q req))"
  by (simp add: app_get_api_tripadvisor_def Let_def)

lemma either_handler:
  assumes "(h, query) \<in> {(handler e req, trim (handler_q req)),
                           (app_get_api_tripadvisor e req, trim (route_q req))}"
    and "query \<noteq> []"
  shows "\<exists>m. h = respond m e query"
  using assms handler_nonblank route_nonblank by auto

lemma respond_wiki_iff:
  "(WikiSearch query \<in> set (fst (respond m e query))) = (scraped e query = [])"
proof (cases "scraped e query = []")
  case True
  then show ?thesis by (simp add: respond_fallback wiki_calls_first)
next
  case False
  have "WikiSearch query \<notin> set (fst (fetchTripAdvisorImages e query 10))"
    using scrape_calls_http by blast
  with False show ?thesis by (simp add: respond_scraped)
qed

section \<open>Sample runs\<close>

text \<open>The sample worlds, evaluated once; the witnesses below rest on these runs.\<close>

lemma eiffel_url:
  "buildTripAdvisorSearchUrl ''Eiffel Tower'' = ''https://www.tripadvisor.com/Search?q=Eiffel%20Tower''"
  by (simp add: buildTripAdvisorSearchUrl_def encodeURIComponent_def encode_char_def unreserved_def
      hex_digit_def)

lemma trim_eiffel: "trim ''Eiffel Tower'' = ''Eiffel Tower''"
  by code_simp

lemma candidates_plain:
  "candidateLinks ascii_lower ''Eiffel Tower'' (page_anchors plain_search_page) = []"
  by code_simp

lemma candidates_eiffel:
  "candidateLinks ascii_lower ''Eiffel Tower'' (page_anchors eiffel_search_page) =
     [''/Attraction_Review-g187147-d188151-Eiffel_Tower.html'',
      ''/Attractions-g187147-Activities-Paris.html'']"
  by code_simp

lemma images_eiffel:
  "images eiffel_imgs =
     [\<lparr>src = ''https://media-cdn.tripadvisor.com/media/photo-l/01/02/a.jpg'', alt = ''Eiffel''\<rparr>,
      \<lparr>src = ''https://dynamic-media-cdn.tripadvisor.com/media/photo-o/0a/b.jpg'', alt = []\<rparr>]"
  by code_simp

lemma images_foreign:
  "images foreign_imgs =
     [\<lparr>src = ''https://example.org/media-cdn.tripadvisor.com/a.jpg'', alt = []\<rparr>,
      \<lparr>src = ''data:text/plain,media-cdn.tripadvisor.com'', alt = []\<rparr>]"
  by code_simp

lemma scrape_nothing:
  "fetchTripAdvisorImages nothing_env ''Eiffel Tower'' mx =
     ([HttpGet ''https://www.tripadvisor.com/Search?q=Eiffel%20Tower''], Inr [])"
  by (simp add: fetchTripAdvisorImages_def eiffel_url nothing_env_def env_of_def placeHref_def
      candidates_plain)

lemma scrape_eiffel:
  "fetchTripAdvisorImages eiffel_env ''Eiffel Tower'' 10 =
     ([HttpGet ''https://www.tripadvisor.com/Search?q=Eiffel%20Tower'',
       HttpGet ''https://www.tripadvisor.com/Attraction_Review-g187147-d188151-Eiffel_Tower.html''],
      Inr [\<lparr>src = ''https://media-cdn.tripadvisor.com/media/photo-l/01/02/a.jpg'', alt = ''Eiffel''\<rparr>,
           \<lparr>src = ''https://dynamic-media-cdn.tripadvisor.com/media/photo-o/0a/b.jpg'', alt = []\<rparr>])"
  by (simp add: fetchTripAdvisorImages_def eiffel_url eiffel_env_def env_of_def placeHref_def
      candidates_eiffel image_list_def eiffel_place_page_def images_eiffel slice0_def)

lemma scrape_down:
  "fetchTripAdvisorImages (env_of (Inl Timeout) b c d) ''Eiffel Tower'' mx =
     ([HttpGet ''https://www.tripadvisor.com/Search?q=Eiffel%20Tower''], Inl Timeout)"
  by (simp add: fetchTripAdvisorImages_def eiffel_url env_of_def)

lemma wiki_nothing:
  "fetchWikipediaImages nothing_env ''Eiffel Tower'' mx = ([WikiSearch ''Eiffel Tower''], Inr [])"
  by (simp add: fetchWikipediaImages_def nothing_env_def env_of_def top_hit_def no_hits_data_def)

lemma wiki_down:
  "fetchWikipediaImages all_down_env ''Eiffel Tower'' mx = ([WikiSearch ''Eiffel Tower''], Inl Timeout)"
  by (simp add: fetchWikipediaImages_def all_down_env_def env_of_def)

lemma wiki_eiffel:
  "fetchWikipediaImages (env_of a b (Inr eiffel_search_data) (Inr eiffel_images_data)) ''Eiffel Tower'' 10 =
     ([WikiSearch ''Eiffel Tower'', WikiImages ''Eiffel Tower''],
      Inr [\<lparr>src = ''https://upload.wikimedia.org/a/Tour_Eiffel.JPG'', alt = ''Eiffel Tower (Wikipedia)''\<rparr>,
           \<lparr>src = ''https://upload.wikimedia.org/c/Eiffel.png'', alt = ''Eiffel Tower (Wikipedia)''\<rparr>])"
  by code_simp

lemma handler_q_get: "handler_q (get_q s) = s" "route_q (get_q s) = s"
  by (simp_all add: handler_q_def route_q_def get_q_def)

lemma image_list_eiffel:
  "image_list eiffel_imgs 10 =
     [\<lparr>src = ''https://media-cdn.tripadvisor.com/media/photo-l/01/02/a.jpg'', alt = ''Eiffel''\<rparr>,
      \<lparr>src = ''https://dynamic-media-cdn.tripadvisor.com/media/photo-o/0a/b.jpg'', alt = []\<rparr>]"
  "image_list eiffel_imgs 1 =
     [\<lparr>src = ''https://media-cdn.tripadvisor.com/media/photo-l/01/02/a.jpg'', alt = ''Eiffel''\<rparr>]"
  by (simp_all add: image_list_def images_eiffel slice0_def)

section \<open>The endpoint: the claims\<close>

lemma respond_status: "status (snd (respond m e query)) \<in> {200, 500}"
proof (cases "scraped e query = []")
  case True
  then show ?thesis by (simp add: respond_fallback split: sum.splits)
next
  case False
  then show ?thesis by (simp add: respond_scraped)
qed

lemma handler_q_blank:
  assumes "missing_or_blank (query_q req)" and "missing_or_blank (body_q req)"
  shows "blank (handler_q req)"
proof (cases "query_q req")
  case None
  with assms(2) show ?thesis by (cases "body_q req") (simp_all add: handler_q_def)
next
  case (Some s)
  with assms show ?thesis by (cases "body_q req") (simp_all add: handler_q_def)
qed

lemma route_q_blank: "missing_or_blank (query_q req) \<Longrightarrow> blank (route_q req)"
  by (cases "query_q req") (simp_all add: route_q_def)

text \<open>
  C7. A request whose \<open>q\<close> is missing, empty or made of white-space characters only (the
  characters that \<open>trim\<close> strips, listed in \<open>white_space\<close>) is answered with status 400
  and the body \<open>{error: 'Missing q'}\<close>, and no request leaves the server: the list of calls
  is empty. The Express route reads \<open>q\<close> from the query string. The serverless handler
  reads the query string's \<open>q\<close> or, when that is missing or empty, the body's; it rejects
  the request when the \<open>q\<close> it reads is blank, so whenever neither place carries a \<open>q\<close>
  that is not blank. Neither handler answers 400 to a request whose \<open>q\<close> is not blank.
\<close>

theorem blank_query_rejected:
  "(missing_or_blank (query_q req) \<longrightarrow>
      app_get_api_tripadvisor e req = ([], \<lparr>status = 400, body = ErrorBody ''Missing q''\<rparr>))
   \<and> (blank (handler_q req) \<longrightarrow>
      handler e req = ([], \<lparr>status = 400, body = ErrorBody ''Missing q''\<rparr>))
   \<and> (missing_or_blank (query_q req) \<and> missing_or_blank (body_q req) \<longrightarrow>
      handler e req = ([], \<lparr>status = 400, body = ErrorBody ''Missing q''\<rparr>))
   \<and> (status (snd (app_get_api_tripadvisor e req)) = 400) = blank (route_q req)
   \<and> (status (snd (handler e req)) = 400) = blank (handler_q req)"
proof -
  have r: "app_get_api_tripadvisor e req = ([], \<lparr>status = 400, body = ErrorBody ''Missing q''\<rparr>)"
    if "blank (route_q req)"
    using that by (simp add: app_get_api_tripadvisor_def trim_Nil_iff)
  have h: "handler e req = ([], \<lparr>status = 400, body = ErrorBody ''Missing q''\<rparr>)"
    if "blank (handler_q req)"
    using that by (simp add: handler_def trim_Nil_iff)
  have rn: "status (snd (app_get_api_tripadvisor e req)) \<noteq> 400" if "\<not> blank (route_q req)"
  proof -
    from that have "trim (route_q req) \<noteq> []" by (simp add: trim_Nil_iff)
    then have "app_get_api_tripadvisor e req
        = respond ''Failed to fetch TripAdvisor images'' e (trim (route_q req))"
      by (rule route_nonblank)
    with respond_status[of "''Failed to fetch TripAdvisor images''" e "trim (route_q req)"]
    show ?thesis by auto
  qed
  have hn: "status (snd (handler e req)) \<noteq> 400" if "\<not> blank (handler_q req)"
  proof -
    from that have "trim (handler_q req) \<noteq> []" by (simp add: trim_Nil_iff)
    then have "handler e req = respond ''Failed to fetch images'' e (trim (handler_q req))"
      by (rule handler_nonblank)
    with respond_status[of "''Failed to fetch images''" e "trim (handler_q req)"]
    show ?thesis by auto
  qed
  have r4: "(status (snd (app_get_api_tripadvisor e req)) = 400) = blank (route_q req)"
    using r rn by (cases "blank (route_q req)") simp_all
  have h4: "(status (snd (handler e req)) = 400) = blank (handler_q req)"
    using h hn by (cases "blank (handler_q req)") simp_all
  from r h r4 h4 route_q_blank handler_q_blank show ?thesis by blast
qed

lemma blank_samples:
  "blank [CHR 0x20, CHR 0x09, CHR 0xC2, CHR 0xA0, CHR 0xE2, CHR 0x80, CHR 0xA8]"
  "\<not> blank ''Paris''"
proof -
  have "set [[CHR 0x20], [CHR 0x09], [CHR 0xC2, CHR 0xA0], [CHR 0xE2, CHR 0x80, CHR 0xA8]]
          \<subseteq> set white_space"
    by (simp add: white_space_def)
  moreover have "[CHR 0x20, CHR 0x09, CHR 0xC2, CHR 0xA0, CHR 0xE2, CHR 0x80, CHR 0xA8]
      = concat [[CHR 0x20], [CHR 0x09], [CHR 0xC2, CHR 0xA0], [CHR 0xE2, CHR 0x80, CHR 0xA8]]"
    by simp
  ultimately show "blank [CHR 0x20, CHR 0x09, CHR 0xC2, CHR 0xA0, CHR 0xE2, CHR 0x80, CHR 0xA8]"
    unfolding blank_def by blast
  have "trim ''Paris'' = ''Paris''" by code_simp
  then have "trim ''Paris'' \<noteq> []" by simp
  then show "\<not> blank ''Paris''" by (simp add: trim_Nil_iff)
qed

theorem blank_query_rejected_witness:
  "missing_or_blank (query_q \<lparr>query_q = None, body_q = Some ''Paris''\<rparr>)
   \<and> app_get_api_tripadvisor eiffel_env \<lparr>query_q = None, body_q = Some ''Paris''\<rparr>
       = ([], \<lparr>status = 400, body = ErrorBody ''Missing q''\<rparr>)
   \<and> blank (handler_q (get_q [CHR 0x20, CHR 0x09, CHR 0xC2, CHR 0xA0, CHR 0xE2, CHR 0x80, CHR 0xA8]))
   \<and> handler eiffel_env (get_q [CHR 0x20, CHR 0x09, CHR 0xC2, CHR 0xA0, CHR 0xE2, CHR 0x80, CHR 0xA8])
       = ([], \<lparr>status = 400, body = ErrorBody ''Missing q''\<rparr>)
   \<and> missing_or_blank (query_q \<lparr>query_q = Some [], body_q = None\<rparr>)
   \<and> missing_or_blank (body_q \<lparr>query_q = Some [], body_q = None\<rparr>)
   \<and> handler eiffel_env \<lparr>query_q = Some [], body_q = None\<rparr>
       = ([], \<lparr>status = 400, body = ErrorBody ''Missing q''\<rparr>)
   \<and> \<not> blank (handler_q (get_q ''Paris''))
   \<and> status (snd (handler eiffel_env (get_q ''Paris''))) \<noteq> 400"
proof -
  let ?ws = "[CHR 0x20, CHR 0x09, CHR 0xC2, CHR 0xA0, CHR 0xE2, CHR 0x80, CHR 0xA8]"
  let ?r1 = "\<lparr>query_q = None, body_q = Some ''Paris''\<rparr>"
  let ?r3 = "\<lparr>query_q = Some [], body_q = None\<rparr>"
  have a: "missing_or_blank (query_q ?r1)" by simp
  have b: "blank (handler_q (get_q ?ws))" by (simp add: handler_q_get blank_samples(1))
  have c: "missing_or_blank (query_q ?r3)" "missing_or_blank (body_q ?r3)" by simp_all
  have d: "\<not> blank (handler_q (get_q ''Paris''))" by (simp add: handler_q_get blank_samples(2))
  from blank_query_rejected[of ?r1 eiffel_env] a
  have a': "app_get_api_tripadvisor eiffel_env ?r1
      = ([], \<lparr>status = 400, body = ErrorBody ''Missing q''\<rparr>)" by blast
  from blank_query_rejected[of "get_q ?ws" eiffel_env] b
  have b': "handler eiffel_env (get_q ?ws)
      = ([], \<lparr>status = 400, body = ErrorBody ''Missing q''\<rparr>)" by blast
  from blank_query_rejected[of ?r3 eiffel_env] c
  have c': "handler eiffel_env ?r3 = ([], \<lparr>status = 400, body = ErrorBody ''Missing q''\<rparr>)"
    by blast
  from blank_query_rejected[of "get_q ''Paris''" eiffel_env] d
  have d': "status (snd (handler eiffel_env (get_q ''Paris''))) \<noteq> 400" by blast
  from a a' b b' c c' d d' show ?thesis by blast
qed

text \<open>
  C3 speaks of a tag with the values "scrape", "encyclopedia" and "none". The responses
  carry no such tag. Where neither source has anything, the answer is an empty list marked
  \<open>fallback: 'wikipedia'\<close>; where the scrape has images, the answer has no mark at all.
\<close>

theorem provenance_tag_counterexample:
  "scraped nothing_env ''Eiffel Tower'' = []
   \<and> snd (fetchWikipediaImages nothing_env ''Eiffel Tower'' 10) = Inr []
   \<and> snd (handler nothing_env (get_q ''Eiffel Tower''))
       = \<lparr>status = 200, body = ImagesBody [] (Some ''wikipedia'')\<rparr>
   \<and> fallback_of (snd (handler nothing_env (get_q ''Eiffel Tower''))) \<noteq> Some ''none''
   \<and> scraped eiffel_env ''Eiffel Tower'' \<noteq> []
   \<and> fallback_of (snd (handler eiffel_env (get_q ''Eiffel Tower''))) = None
   \<and> fallback_of (snd (handler eiffel_env (get_q ''Eiffel Tower''))) \<noteq> Some ''scrape''"
  by (simp add: handler_def handler_q_get trim_eiffel respond_def scraped_def scrape_nothing
      wiki_nothing scrape_eiffel fallback_of_def)

text \<open>
  C3, as the code has it. For a non-empty query, under either handler: the encyclopedia is
  asked exactly when the scrape left no image (a scrape that threw leaves none); a scrape
  with images is answered with status 200, those images and no \<open>fallback\<close> field; when
  the scrape left none and the encyclopedia call returns, its list, empty or not, is
  answered with status 200 and \<open>fallback: 'wikipedia'\<close>; the \<open>fallback\<close> field is absent
  or \<open>'wikipedia'\<close>, and it is \<open>'wikipedia'\<close> only when the scrape left no image.
\<close>

theorem fallback_iff_scrape_empty:
  assumes "(h, query) \<in> {(handler e req, trim (handler_q req)),
                           (app_get_api_tripadvisor e req, trim (route_q req))}"
    and "query \<noteq> []"
  shows "((WikiSearch query \<in> set (fst h)) = (scraped e query = []))
       \<and> (scraped e query \<noteq> [] \<longrightarrow>
            snd h = \<lparr>status = 200, body = ImagesBody (scraped e query) None\<rparr>)
       \<and> (\<forall>wiki. scraped e query = [] \<and> snd (fetchWikipediaImages e query 10) = Inr wiki \<longrightarrow>
            snd h = \<lparr>status = 200, body = ImagesBody wiki (Some ''wikipedia'')\<rparr>)
       \<and> fallback_of (snd h) \<in> {None, Some ''wikipedia''}
       \<and> (fallback_of (snd h) = Some ''wikipedia'' \<longrightarrow> scraped e query = [])"
proof -
  from either_handler[OF assms] obtain m where h: "h = respond m e query" ..
  show ?thesis
  proof (cases "scraped e query = []")
    case True
    then show ?thesis
      unfolding h by (simp add: respond_wiki_iff)
        (auto simp: respond_fallback fallback_of_def split: sum.splits)
  next
    case False
    then show ?thesis
      unfolding h by (simp add: respond_wiki_iff) (simp add: respond_scraped fallback_of_def)
  qed
qed

theorem fallback_iff_scrape_empty_witness:
  "trim (handler_q (get_q ''Eiffel Tower'')) = ''Eiffel Tower''
   \<and> scraped eiffel_env ''Eiffel Tower'' \<noteq> []
   \<and> WikiSearch ''Eiffel Tower'' \<notin> set (fst (handler eiffel_env (get_q ''Eiffel Tower'')))
   \<and> snd (handler eiffel_env (get_q ''Eiffel Tower''))
       = \<lparr>status = 200, body = ImagesBody (scraped eiffel_env ''Eiffel Tower'') None\<rparr>
   \<and> scraped scrape_down_env ''Eiffel Tower'' = []
   \<and> WikiSearch ''Eiffel Tower'' \<in> set (fst (handler scrape_down_env (get_q ''Eiffel Tower'')))
   \<and> fallback_of (snd (handler scrape_down_env (get_q ''Eiffel Tower''))) \<in> {None, Some ''wikipedia''}"
proof -
  let ?req = "get_q ''Eiffel Tower''"
  have q: "trim (handler_q ?req) = ''Eiffel Tower''" by (simp add: handler_q_get trim_eiffel)
  have ne: "''Eiffel Tower'' \<noteq> []" by simp
  have m1: "(handler eiffel_env ?req, ''Eiffel Tower'') \<in>
      {(handler eiffel_env ?req, trim (handler_q ?req)),
       (app_get_api_tripadvisor eiffel_env ?req, trim (route_q ?req))}"
    by (simp add: q)
  have m2: "(handler scrape_down_env ?req, ''Eiffel Tower'') \<in>
      {(handler scrape_down_env ?req, trim (handler_q ?req)),
       (app_get_api_tripadvisor scrape_down_env ?req, trim (route_q ?req))}"
    by (simp add: q)
  have s1: "scraped eiffel_env ''Eiffel Tower'' \<noteq> []" by (simp add: scraped_def scrape_eiffel)
  have s2: "scraped scrape_down_env ''Eiffel Tower'' = []"
    by (simp add: scraped_def scrape_down_env_def scrape_down)
  from fallback_iff_scrape_empty[OF m1 ne] fallback_iff_scrape_empty[OF m2 ne] q s1 s2
  show ?thesis by blast
qed

text \<open>
  C4 holds for the scrape leg only. When the encyclopedia call times out after a failed
  scrape, both handlers answer with status 500 and an error body.
\<close>

theorem encyclopedia_failure_counterexample:
  "snd (fetchTripAdvisorImages all_down_env ''Eiffel Tower'' 10) = Inl Timeout
   \<and> snd (fetchWikipediaImages all_down_env ''Eiffel Tower'' 10) = Inl Timeout
   \<and> handler all_down_env (get_q ''Eiffel Tower'')
       = ([HttpGet ''https://www.tripadvisor.com/Search?q=Eiffel%20Tower'', WikiSearch ''Eiffel Tower''],
          \<lparr>status = 500, body = ErrorBody ''Failed to fetch images''\<rparr>)
   \<and> app_get_api_tripadvisor all_down_env (get_q ''Eiffel Tower'')
       = ([HttpGet ''https://www.tripadvisor.com/Search?q=Eiffel%20Tower'', WikiSearch ''Eiffel Tower''],
          \<lparr>status = 500, body = ErrorBody ''Failed to fetch TripAdvisor images''\<rparr>)"
proof -
  have s: "fetchTripAdvisorImages all_down_env ''Eiffel Tower'' 10 =
     ([HttpGet ''https://www.tripadvisor.com/Search?q=Eiffel%20Tower''], Inl Timeout)"
    unfolding all_down_env_def by (rule scrape_down)
  show ?thesis
    by (simp add: handler_def app_get_api_tripadvisor_def handler_q_get trim_eiffel respond_def s
        wiki_down)
qed

text \<open>
  C4, as the code has it. For a non-empty query, under either handler: when the scrape
  throws, its result counts as empty, the encyclopedia is asked next, and if that call
  returns the answer is status 200 with its list; the status is 500 exactly when the scrape
  left no image and the encyclopedia call threw, and it is 200 otherwise; a 500 answer has
  an error body, and the page script turns it into an empty list.
\<close>

theorem scrape_failure_absorbed:
  assumes "(h, query) \<in> {(handler e req, trim (handler_q req)),
                           (app_get_api_tripadvisor e req, trim (route_q req))}"
    and "query \<noteq> []"
  shows "(\<forall>err. snd (fetchTripAdvisorImages e query 10) = Inl err \<longrightarrow>
            scraped e query = []
            \<and> fst h = fst (fetchTripAdvisorImages e query 10) @ fst (fetchWikipediaImages e query 10)
            \<and> (\<forall>wiki. snd (fetchWikipediaImages e query 10) = Inr wiki \<longrightarrow>
                 snd h = \<lparr>status = 200, body = ImagesBody wiki (Some ''wikipedia'')\<rparr>))
       \<and> ((status (snd h) = 500)
            = (scraped e query = [] \<and> (\<exists>err. snd (fetchWikipediaImages e query 10) = Inl err)))
       \<and> status (snd h) \<in> {200, 500}
       \<and> (status (snd h) = 500 \<longrightarrow> (\<exists>m. body (snd h) = ErrorBody m) \<and> taPhotos (snd h) = [])"
proof -
  from either_handler[OF assms] obtain m where h: "h = respond m e query" ..
  show ?thesis
  proof (cases "scraped e query = []")
    case True
    then show ?thesis
      unfolding h
      by (auto simp: respond_fallback taPhotos_def searchTripAdvisorImages_def split: sum.splits)
  next
    case False
    then show ?thesis
      unfolding h by (auto simp: respond_scraped) (simp add: scraped_def)
  qed
qed

theorem scrape_failure_absorbed_witness:
  "trim (handler_q (get_q ''Eiffel Tower'')) = ''Eiffel Tower''
   \<and> snd (fetchTripAdvisorImages scrape_down_env ''Eiffel Tower'' 10) = Inl Timeout
   \<and> fst (handler scrape_down_env (get_q ''Eiffel Tower''))
       = fst (fetchTripAdvisorImages scrape_down_env ''Eiffel Tower'' 10)
         @ fst (fetchWikipediaImages scrape_down_env ''Eiffel Tower'' 10)
   \<and> snd (handler scrape_down_env (get_q ''Eiffel Tower''))
       = \<lparr>status = 200,
          body = ImagesBody
            [\<lparr>src = ''https://upload.wikimedia.org/a/Tour_Eiffel.JPG'', alt = ''Eiffel Tower (Wikipedia)''\<rparr>,
             \<lparr>src = ''https://upload.wikimedia.org/c/Eiffel.png'', alt = ''Eiffel Tower (Wikipedia)''\<rparr>]
            (Some ''wikipedia'')\<rparr>
   \<and> status (snd (handler scrape_down_env (get_q ''Eiffel Tower''))) \<noteq> 500
   \<and> status (snd (handler all_down_env (get_q ''Eiffel Tower''))) = 500"
proof -
  let ?req = "get_q ''Eiffel Tower''"
  have q: "trim (handler_q ?req) = ''Eiffel Tower''" by (simp add: handler_q_get trim_eiffel)
  have ne: "''Eiffel Tower'' \<noteq> []" by simp
  have m1: "(handler scrape_down_env ?req, ''Eiffel Tower'') \<in>
      {(handler scrape_down_env ?req, trim (handler_q ?req)),
       (app_get_api_tripadvisor scrape_down_env ?req, trim (route_q ?req))}"
    by (simp add: q)
  have m2: "(handler all_down_env ?req, ''Eiffel Tower'') \<in>
      {(handler all_down_env ?req, trim (handler_q ?req)),
       (app_get_api_tripadvisor all_down_env ?req, trim (route_q ?req))}"
    by (simp add: q)
  have f1: "snd (fetchTripAdvisorImages scrape_down_env ''Eiffel Tower'' 10) = Inl Timeout"
    by (simp add: scrape_down_env_def scrape_down)
  have w1: "snd (fetchWikipediaImages scrape_down_env ''Eiffel Tower'' 10) =
      Inr [\<lparr>src = ''https://upload.wikimedia.org/a/Tour_Eiffel.JPG'', alt = ''Eiffel Tower (Wikipedia)''\<rparr>,
           \<lparr>src = ''https://upload.wikimedia.org/c/Eiffel.png'', alt = ''Eiffel Tower (Wikipedia)''\<rparr>]"
    by (simp add: scrape_down_env_def wiki_eiffel)
  have f2: "scraped all_down_env ''Eiffel Tower'' = []"
    by (simp add: scraped_def all_down_env_def scrape_down)
  have w2: "snd (fetchWikipediaImages all_down_env ''Eiffel Tower'' 10) = Inl Timeout"
    by (simp add: wiki_down)
  note t1 = scrape_failure_absorbed[OF m1 ne] and t2 = scrape_failure_absorbed[OF m2 ne]
  from t1 f1 w1 have a: "fst (handler scrape_down_env ?req)
       = fst (fetchTripAdvisorImages scrape_down_env ''Eiffel Tower'' 10)
         @ fst (fetchWikipediaImages scrape_down_env ''Eiffel Tower'' 10)"
    and b: "snd (handler scrape_down_env ?req)
       = \<lparr>status = 200,
          body = ImagesBody
            [\<lparr>src = ''https://upload.wikimedia.org/a/Tour_Eiffel.JPG'', alt = ''Eiffel Tower (Wikipedia)''\<rparr>,
             \<lparr>src = ''https://upload.wikimedia.org/c/Eiffel.png'', alt = ''Eiffel Tower (Wikipedia)''\<rparr>]
            (Some ''wikipedia'')\<rparr>"
    by blast+
  from b have c: "status (snd (handler scrape_down_env ?req)) \<noteq> 500" by simp
  from t2 f2 w2 have d: "status (snd (handler all_down_env ?req)) = 500" by blast
  from q f1 a b c d show ?thesis by blast
qed

section \<open>The place link\<close>

lemma candidate_step_skip:
  assumes "js_or (a_href a) [] = []
           \<or> (\<not> path_heuristic (js_or (a_href a) [])
               \<and> \<not> text_heuristic lower query (lower (a_text a)))"
  shows "candidate_step lower query S a = S"
  using assms by (auto simp: candidate_step_def Let_def)

lemma candidateLinks_skip:
  assumes "\<forall>a \<in> set anchors. js_or (a_href a) [] = []
           \<or> (\<not> path_heuristic (js_or (a_href a) [])
               \<and> \<not> text_heuristic lower query (lower (a_text a)))"
  shows "foldl (candidate_step lower query) S anchors = S"
  using assms by (induction anchors arbitrary: S) (simp_all add: candidate_step_skip)

text \<open>
  C8. When the search page arrives and none of its anchors with a non-empty \<open>href\<close>
  passes the path test or the text test (the anchor text, lowercased, contains the
  lowercased query, whatever \<open>toLowerCase\<close> makes of the two), no place link is found,
  and the scrape returns the empty list after that one request: the place page is never
  fetched.
\<close>

theorem no_candidate_no_second_fetch:
  assumes "search_page e (buildTripAdvisorSearchUrl query) = Inr res"
    and "\<forall>a \<in> set (page_anchors res). js_or (a_href a) [] = []
           \<or> (\<not> path_heuristic (js_or (a_href a) [])
               \<and> \<not> text_heuristic (toLowerCase e) query (toLowerCase e (a_text a)))"
  shows "placeHref (toLowerCase e) query (page_anchors res) = None
       \<and> fetchTripAdvisorImages e query mx = ([HttpGet (buildTripAdvisorSearchUrl query)], Inr [])"
proof -
  have "candidateLinks (toLowerCase e) query (page_anchors res) = []"
    unfolding candidateLinks_def using assms(2) by (rule candidateLinks_skip)
  then have "placeHref (toLowerCase e) query (page_anchors res) = None"
    by (simp add: placeHref_def)
  then show ?thesis using assms(1) by (simp add: fetchTripAdvisorImages_def)
qed

theorem no_candidate_no_second_fetch_witness:
  "search_page nothing_env (buildTripAdvisorSearchUrl ''Eiffel Tower'') = Inr plain_search_page
   \<and> path_heuristic ''/Hotels-g187147-Paris.html'' = False
   \<and> text_heuristic (toLowerCase nothing_env) ''Eiffel Tower''
        (toLowerCase nothing_env ''Hotels'') = False
   \<and> placeHref (toLowerCase nothing_env) ''Eiffel Tower'' (page_anchors plain_search_page) = None
   \<and> fetchTripAdvisorImages nothing_env ''Eiffel Tower'' 10 =
       ([HttpGet ''https://www.tripadvisor.com/Search?q=Eiffel%20Tower''], Inr [])"
proof -
  have l: "toLowerCase nothing_env = ascii_lower" by (simp add: nothing_env_def env_of_def)
  have h1: "search_page nothing_env (buildTripAdvisorSearchUrl ''Eiffel Tower'') = Inr plain_search_page"
    by (simp add: nothing_env_def env_of_def)
  have p: "path_heuristic ''/Hotels-g187147-Paris.html'' = False" by code_simp
  have t0: "text_heuristic ascii_lower ''Eiffel Tower'' (ascii_lower ''Hotels'') = False"
    by code_simp
  then have t: "text_heuristic (toLowerCase nothing_env) ''Eiffel Tower''
        (toLowerCase nothing_env ''Hotels'') = False" by (simp only: l)
  have h2: "\<forall>a \<in> set (page_anchors plain_search_page). js_or (a_href a) [] = []
           \<or> (\<not> path_heuristic (js_or (a_href a) [])
               \<and> \<not> text_heuristic (toLowerCase nothing_env) ''Eiffel Tower''
                     (toLowerCase nothing_env (a_text a)))"
    by (simp add: plain_search_page_def p t)
  from no_candidate_no_second_fetch[OF h1 h2, of 10] h1 p t show ?thesis
    by (simp add: eiffel_url)
qed

section \<open>The encyclopedia source\<close>

lemma ascii_lower_char_dot:
  assumes "ascii_lower_char c = CHR ''.''"
  shows "c = CHR ''.''"
proof (cases "map_of (zip ''ABCDEFGHIJKLMNOPQRSTUVWXYZ'' ''abcdefghijklmnopqrstuvwxyz'') c")
  case None
  then have "ascii_lower_char c = c" unfolding ascii_lower_char_def by (simp only: option.case)
  with assms show ?thesis by simp
next
  case (Some l)
  then have "ascii_lower_char c = l" unfolding ascii_lower_char_def by (simp only: option.case)
  with assms have l: "l = CHR ''.''" by simp
  from Some have "(c, l) \<in> set (zip ''ABCDEFGHIJKLMNOPQRSTUVWXYZ'' ''abcdefghijklmnopqrstuvwxyz'')"
    by (rule map_of_SomeD)
  then have "l \<in> set ''abcdefghijklmnopqrstuvwxyz''" by (rule set_zip_rightD)
  with l show ?thesis by simp
qed

lemma suffix_lower_ext:
  assumes "suffix (CHR ''.'' # x) (ascii_lower u)"
  shows "\<exists>stem ext. u = stem @ ''.'' @ ext \<and> ascii_lower ext = x"
proof -
  from assms obtain zs where "map ascii_lower_char u = zs @ CHR ''.'' # x"
    by (auto simp: suffix_def ascii_lower_def)
  then obtain us vs where u: "u = us @ vs" and vs: "map ascii_lower_char vs = CHR ''.'' # x"
    by (auto simp: map_eq_append_conv)
  from vs obtain c ext where v: "vs = c # ext" "ascii_lower_char c = CHR ''.''" "map ascii_lower_char ext = x"
    by (auto simp: map_eq_Cons_conv)
  from v(2) have "c = CHR ''.''" by (rule ascii_lower_char_dot)
  with u v show ?thesis by (auto simp: ascii_lower_def)
qed

lemma has_image_ext_shape:
  assumes "has_image_ext u"
  shows "\<exists>stem ext. u = stem @ ''.'' @ ext \<and> ascii_lower ext \<in> {''jpg'', ''jpeg'', ''png''}"
proof -
  from assms consider "suffix (CHR ''.'' # ''jpg'') (ascii_lower u)"
    | "suffix (CHR ''.'' # ''jpeg'') (ascii_lower u)"
    | "suffix (CHR ''.'' # ''png'') (ascii_lower u)"
    unfolding has_image_ext_def by auto
  then show ?thesis
  proof cases
    case 1
    from suffix_lower_ext[OF this] show ?thesis by blast
  next
    case 2
    from suffix_lower_ext[OF this] show ?thesis by blast
  next
    case 3
    from suffix_lower_ext[OF this] show ?thesis by blast
  qed
qed

lemma wiki_no_hit:
  assumes "wiki_search e query = Inr sdat" and "top_hit sdat = None"
  shows "fetchWikipediaImages e query mx = ([WikiSearch query], Inr [])"
  using assms by (simp add: fetchWikipediaImages_def)

lemma wiki_hit_descriptors:
  assumes "wiki_search e query = Inr sdat" and "top_hit sdat = Some hit"
    and "fetchWikipediaImages e query mx = (calls, Inr ds)" and "d \<in> set ds"
  shows "has_image_ext (src d) \<and> alt d = title hit @ '' (Wikipedia)''"
proof (cases "wiki_images e (title hit)")
  case (Inl err)
  with assms(1,2) have "snd (fetchWikipediaImages e query mx) = Inl err"
    by (simp add: fetchWikipediaImages_def)
  with assms(3) show ?thesis by simp
next
  case (Inr idat)
  define urls where "urls = filter has_image_ext (List.map_filter page_url (pages_of idat))"
  from Inr assms(1,2)
  have "snd (fetchWikipediaImages e query mx) =
          Inr (map (\<lambda>u. \<lparr>src = u, alt = title hit @ '' (Wikipedia)''\<rparr>) (slice0 urls mx))"
    by (simp add: fetchWikipediaImages_def urls_def)
  with assms(3) have ds: "ds = map (\<lambda>u. \<lparr>src = u, alt = title hit @ '' (Wikipedia)''\<rparr>) (slice0 urls mx)"
    by simp
  from assms(4) obtain u where u: "u \<in> set (slice0 urls mx)"
    and d: "d = \<lparr>src = u, alt = title hit @ '' (Wikipedia)''\<rparr>"
    unfolding ds by auto
  have "set (slice0 urls mx) \<subseteq> set urls"
    by (rule set_mono_prefix) (rule slice0_prefix)
  with u have "u \<in> set urls" by blast
  then have "has_image_ext u" by (simp add: urls_def)
  with d show ?thesis by simp
qed

text \<open>
  C9. When the search call returns: with no hit, the encyclopedia source returns the
  empty list after that one call; with a top hit, every descriptor it returns has a
  \<open>src\<close> that ends in a dot and an extension which lowercases to jpg, jpeg or png, and
  an \<open>alt\<close> that is the hit's title followed by \<open>" (Wikipedia)"\<close>.
\<close>

theorem wiki_descriptors:
  assumes "wiki_search e query = Inr sdat"
  shows "(top_hit sdat = None \<longrightarrow> fetchWikipediaImages e query mx = ([WikiSearch query], Inr []))
       \<and> (\<forall>hit calls ds. top_hit sdat = Some hit
             \<and> fetchWikipediaImages e query mx = (calls, Inr ds) \<longrightarrow>
             (\<forall>d \<in> set ds.
                (\<exists>stem ext. src d = stem @ ''.'' @ ext
                    \<and> ascii_lower ext \<in> {''jpg'', ''jpeg'', ''png''})
                \<and> alt d = title hit @ '' (Wikipedia)''))"
proof (intro conjI impI allI ballI)
  assume "top_hit sdat = None"
  with assms show "fetchWikipediaImages e query mx = ([WikiSearch query], Inr [])"
    by (rule wiki_no_hit)
next
  fix hit calls ds d
  assume a: "top_hit sdat = Some hit \<and> fetchWikipediaImages e query mx = (calls, Inr ds)"
    and d: "d \<in> set ds"
  from a have h: "top_hit sdat = Some hit" and f: "fetchWikipediaImages e query mx = (calls, Inr ds)"
    by simp_all
  from wiki_hit_descriptors[OF assms h f d]
  have e: "has_image_ext (src d)" and t: "alt d = title hit @ '' (Wikipedia)''" by simp_all
  from e show "\<exists>stem ext. src d = stem @ ''.'' @ ext
                    \<and> ascii_lower ext \<in> {''jpg'', ''jpeg'', ''png''}"
    by (rule has_image_ext_shape)
  from t show "alt d = title hit @ '' (Wikipedia)''" .
qed

theorem wiki_descriptors_witness:
  "wiki_search eiffel_env ''Eiffel Tower'' = Inr eiffel_search_data
   \<and> top_hit eiffel_search_data = Some \<lparr>title = ''Eiffel Tower''\<rparr>
   \<and> fetchWikipediaImages eiffel_env ''Eiffel Tower'' 10 =
     ([WikiSearch ''Eiffel Tower'', WikiImages ''Eiffel Tower''],
      Inr [\<lparr>src = ''https://upload.wikimedia.org/a/Tour_Eiffel.JPG'', alt = ''Eiffel Tower (Wikipedia)''\<rparr>,
           \<lparr>src = ''https://upload.wikimedia.org/c/Eiffel.png'', alt = ''Eiffel Tower (Wikipedia)''\<rparr>])
   \<and> (\<exists>stem ext. ''https://upload.wikimedia.org/a/Tour_Eiffel.JPG'' = stem @ ''.'' @ ext
          \<and> ascii_lower ext \<in> {''jpg'', ''jpeg'', ''png''})
   \<and> wiki_search nothing_env ''Eiffel Tower'' = Inr no_hits_data
   \<and> top_hit no_hits_data = None
   \<and> fetchWikipediaImages nothing_env ''Eiffel Tower'' 10 = ([WikiSearch ''Eiffel Tower''], Inr [])"
proof -
  let ?d = "\<lparr>src = ''https://upload.wikimedia.org/a/Tour_Eiffel.JPG'', alt = ''Eiffel Tower (Wikipedia)''\<rparr>"
  let ?d2 = "\<lparr>src = ''https://upload.wikimedia.org/c/Eiffel.png'', alt = ''Eiffel Tower (Wikipedia)''\<rparr>"
  have s1: "wiki_search eiffel_env ''Eiffel Tower'' = Inr eiffel_search_data"
    by (simp add: eiffel_env_def env_of_def)
  have t1: "top_hit eiffel_search_data = Some \<lparr>title = ''Eiffel Tower''\<rparr>"
    by (simp add: top_hit_def eiffel_search_data_def)
  have f1: "fetchWikipediaImages eiffel_env ''Eiffel Tower'' 10 =
     ([WikiSearch ''Eiffel Tower'', WikiImages ''Eiffel Tower''], Inr [?d, ?d2])"
    unfolding eiffel_env_def by (rule wiki_eiffel)
  have s2: "wiki_search nothing_env ''Eiffel Tower'' = Inr no_hits_data"
    by (simp add: nothing_env_def env_of_def)
  have t2: "top_hit no_hits_data = None" by (simp add: top_hit_def no_hits_data_def)
  have m: "?d \<in> set [?d, ?d2]" by simp
  from wiki_descriptors[OF s1, of 10] t1 f1 m
  have "\<exists>stem ext. src ?d = stem @ ''.'' @ ext \<and> ascii_lower ext \<in> {''jpg'', ''jpeg'', ''png''}"
    by blast
  then have e: "\<exists>stem ext. ''https://upload.wikimedia.org/a/Tour_Eiffel.JPG'' = stem @ ''.'' @ ext
          \<and> ascii_lower ext \<in> {''jpg'', ''jpeg'', ''png''}" by simp
  from wiki_descriptors[OF s2, of 10] t2
  have n: "fetchWikipediaImages nothing_env ''Eiffel Tower'' 10 = ([WikiSearch ''Eiffel Tower''], Inr [])"
    by blast
  from s1 t1 f1 e s2 t2 n show ?thesis by blast
qed

section \<open>The two rewrites of a source\<close>

text \<open>
  Each rewrite changes at most one place: \<open>photo-s/\<close> becomes \<open>photo-l/\<close>, and a
  segment \<open>/-w..-h../\<close> shrinks to a slash.
\<close>

lemma sublist_split_at:
  assumes "sublist N (A @ c # B)" and "c \<notin> set N"
  shows "sublist N A \<or> sublist N B"
proof -
  from assms(1) consider "sublist N A" | "sublist N (c # B)"
    | N1 N2 where "N = N1 @ N2" "suffix N1 A" "prefix N2 (c # B)"
    by (auto simp: sublist_append)
  then show ?thesis
  proof cases
    case 1
    then show ?thesis by simp
  next
    case 2
    then have "prefix N (c # B) \<or> sublist N B" by (simp add: sublist_Cons_right)
    moreover have "N = []" if "prefix N (c # B)"
      using that assms(2) by (cases N) auto
    ultimately show ?thesis by auto
  next
    case 3
    have "N2 = []" using 3(1,3) assms(2) by (cases N2) auto
    with 3(1,2) show ?thesis by auto
  qed
qed

lemma sublist_drop_last:
  assumes "sublist N (A @ [c])" and "N \<noteq> []" and "last N \<noteq> c"
  shows "sublist N A"
proof -
  from assms(1) have "suffix N (A @ [c]) \<or> sublist N A" by (simp add: sublist_snoc)
  moreover have False if "suffix N (A @ [c])"
  proof -
    from that obtain zs where "A @ [c] = zs @ N" by (auto simp: suffix_def)
    then have "last (A @ [c]) = last (zs @ N)" by simp
    with assms(2,3) show False by simp
  qed
  ultimately show ?thesis by auto
qed

lemma sublist_inI: "sublist N A \<Longrightarrow> sublist N (P @ A @ Q)"
  by (metis sublist_appendI sublist_order.order.trans)

lemma replace_photo_s_cases:
  "replace_photo_s s = s
   \<or> (\<exists>X Y. s = X @ ''photo-s/'' @ Y \<and> replace_photo_s s = X @ ''photo-l/'' @ Y)"
proof (induction s)
  case Nil
  then show ?case by simp
next
  case (Cons c cs)
  show ?case
  proof (cases "prefix ''photo-s/'' (c # cs)")
    case True
    then obtain Y where Y: "c # cs = ''photo-s/'' @ Y" unfolding prefix_def by blast
    have "drop 8 (''photo-s/'' @ Y) = Y" by simp
    then have "drop 8 (c # cs) = Y" unfolding Y .
    moreover from True have "replace_photo_s (c # cs) = ''photo-l/'' @ drop 8 (c # cs)"
      by (simp only: replace_photo_s.simps if_True)
    ultimately have "replace_photo_s (c # cs) = [] @ ''photo-l/'' @ Y" by (simp only: append_Nil)
    moreover from Y have "c # cs = [] @ ''photo-s/'' @ Y" by (simp only: append_Nil)
    ultimately show ?thesis by blast
  next
    case False
    then have r: "replace_photo_s (c # cs) = c # replace_photo_s cs"
      by (simp only: replace_photo_s.simps if_False)
    from Cons.IH show ?thesis
    proof
      assume same: "replace_photo_s cs = cs"
      have "replace_photo_s (c # cs) = c # cs" unfolding r same ..
      then show ?thesis by (rule disjI1)
    next
      assume "\<exists>X Y. cs = X @ ''photo-s/'' @ Y \<and> replace_photo_s cs = X @ ''photo-l/'' @ Y"
      then obtain X Y where "cs = X @ ''photo-s/'' @ Y" "replace_photo_s cs = X @ ''photo-l/'' @ Y"
        by blast
      with r have "c # cs = (c # X) @ ''photo-s/'' @ Y
          \<and> replace_photo_s (c # cs) = (c # X) @ ''photo-l/'' @ Y"
        by (simp only: append_Cons)
      then show ?thesis by blast
    qed
  qed
qed

lemma match_wh_shape:
  assumes "match_wh s = Some rest"
  shows "\<exists>M. s = CHR ''/'' # M @ CHR ''/'' # rest \<and> (\<forall>c \<in> set M. wh_char c)"
proof -
  have p1: "prefix ''/-w'' s"
  proof (rule ccontr)
    assume n: "\<not> prefix ''/-w'' s"
    have "match_wh s = None" unfolding match_wh_def by (rule if_not_P[OF n])
    with assms show False by simp
  qed
  define t where "t = drop 3 s"
  define d1 where "d1 = takeWhile is_digit t"
  define t1 where "t1 = dropWhile is_digit t"
  define t2 where "t2 = drop 2 t1"
  define d2 where "d2 = takeWhile is_digit t2"
  define t3 where "t3 = dropWhile is_digit t2"
  have m: "match_wh s =
      (if d1 \<noteq> [] \<and> prefix ''-h'' t1
       then (if d2 \<noteq> [] \<and> prefix ''/'' t3 then Some (drop 1 t3) else None)
       else None)"
    unfolding match_wh_def Let_def t_def d1_def t1_def t2_def d2_def t3_def
    using p1 by (simp only: if_True)
  have c1: "d1 \<noteq> [] \<and> prefix ''-h'' t1"
  proof (rule ccontr)
    assume n: "\<not> (d1 \<noteq> [] \<and> prefix ''-h'' t1)"
    have "match_wh s = None" by (subst m) (rule if_not_P[OF n])
    with assms show False by simp
  qed
  have "match_wh s = (if d2 \<noteq> [] \<and> prefix ''/'' t3 then Some (drop 1 t3) else None)"
    by (subst m) (rule if_P[OF c1])
  from this[symmetric] assms
  have m2: "(if d2 \<noteq> [] \<and> prefix ''/'' t3 then Some (drop 1 t3) else None) = Some rest"
    by (rule trans)
  have c2: "d2 \<noteq> [] \<and> prefix ''/'' t3"
  proof (rule ccontr)
    assume n: "\<not> (d2 \<noteq> [] \<and> prefix ''/'' t3)"
    have "(if d2 \<noteq> [] \<and> prefix ''/'' t3 then Some (drop 1 t3) else None) = None"
      by (rule if_not_P[OF n])
    with m2 show False by simp
  qed
  have "(if d2 \<noteq> [] \<and> prefix ''/'' t3 then Some (drop 1 t3) else None) = Some (drop 1 t3)"
    by (rule if_P[OF c2])
  with m2 have rest: "rest = drop 1 t3" by simp
  from p1 obtain t' where s: "s = ''/-w'' @ t'" unfolding prefix_def by blast
  have "drop 3 (''/-w'' @ t') = t'" by simp
  then have t': "t' = t" unfolding t_def s by simp
  have t: "t = d1 @ t1" unfolding d1_def t1_def by simp
  from c1 obtain u where t1: "t1 = ''-h'' @ u" unfolding prefix_def by blast
  have "drop 2 (''-h'' @ u) = u" by simp
  then have u: "u = t2" unfolding t2_def t1 by simp
  have t2: "t2 = d2 @ t3" unfolding d2_def t3_def by simp
  from c2 obtain v where t3: "t3 = ''/'' @ v" unfolding prefix_def by blast
  have "drop 1 (''/'' @ v) = v" by simp
  then have v: "v = rest" unfolding rest t3 by simp
  have "s = ''/-w'' @ d1 @ ''-h'' @ d2 @ ''/'' @ rest"
    using s t' t t1 u t2 t3 v by (simp only:)
  then have eq: "s = CHR ''/'' # (''-w'' @ d1 @ ''-h'' @ d2) @ CHR ''/'' # rest" by simp
  have dig: "\<forall>c \<in> set d1. is_digit c" "\<forall>c \<in> set d2. is_digit c"
    unfolding d1_def d2_def by (auto dest: set_takeWhileD)
  have "\<forall>c \<in> set (''-w'' @ d1 @ ''-h'' @ d2). wh_char c"
    using dig by (auto simp: wh_char_def)
  with eq show ?thesis by blast
qed

lemma replace_wh_cases:
  "replace_wh s = s
   \<or> (\<exists>X M Y. s = X @ CHR ''/'' # M @ CHR ''/'' # Y \<and> replace_wh s = X @ CHR ''/'' # Y
        \<and> (\<forall>c \<in> set M. wh_char c))"
proof (induction s)
  case Nil
  then show ?case by simp
next
  case (Cons c cs)
  show ?case
  proof (cases "match_wh (c # cs)")
    case (Some rest)
    from match_wh_shape[OF Some] obtain M where
      M: "c # cs = CHR ''/'' # M @ CHR ''/'' # rest" "(\<forall>c \<in> set M. wh_char c)" by blast
    from Some have "replace_wh (c # cs) = [] @ CHR ''/'' # rest"
      by (simp only: replace_wh.simps option.case append_Nil)
    moreover from M(1) have "c # cs = [] @ CHR ''/'' # M @ CHR ''/'' # rest" by simp
    ultimately show ?thesis using M(2) by blast
  next
    case None
    then have r: "replace_wh (c # cs) = c # replace_wh cs"
      by (simp only: replace_wh.simps option.case)
    from Cons.IH show ?thesis
    proof
      assume same: "replace_wh cs = cs"
      have "replace_wh (c # cs) = c # cs" unfolding r same ..
      then show ?thesis by (rule disjI1)
    next
      assume "\<exists>X M Y. cs = X @ CHR ''/'' # M @ CHR ''/'' # Y \<and> replace_wh cs = X @ CHR ''/'' # Y
        \<and> (\<forall>c \<in> set M. wh_char c)"
      then obtain X M Y where "cs = X @ CHR ''/'' # M @ CHR ''/'' # Y"
        "replace_wh cs = X @ CHR ''/'' # Y" "(\<forall>c \<in> set M. wh_char c)" by blast
      with r have "c # cs = (c # X) @ CHR ''/'' # M @ CHR ''/'' # Y
          \<and> replace_wh (c # cs) = (c # X) @ CHR ''/'' # Y \<and> (\<forall>c \<in> set M. wh_char c)"
        by simp
      then show ?thesis by blast
    qed
  qed
qed

text \<open>Nothing new without an l or a slash appears.\<close>

lemma replace_photo_s_reflects:
  assumes "sublist N (replace_photo_s s)" and "CHR ''l'' \<notin> set N"
  shows "sublist N s"
  using replace_photo_s_cases[of s]
proof
  assume "replace_photo_s s = s"
  with assms show ?thesis by simp
next
  assume "\<exists>X Y. s = X @ ''photo-s/'' @ Y \<and> replace_photo_s s = X @ ''photo-l/'' @ Y"
  then obtain X Y where s: "s = X @ ''photo-s/'' @ Y"
    and r: "replace_photo_s s = X @ ''photo-l/'' @ Y" by blast
  from assms(1) r have "sublist N ((X @ ''photo-'') @ CHR ''l'' # (CHR ''/'' # Y))" by simp
  from sublist_split_at[OF this assms(2)] show ?thesis
  proof
    assume "sublist N (X @ ''photo-'')"
    then have "sublist N ([] @ (X @ ''photo-'') @ (''s/'' @ Y))" by (rule sublist_inI)
    then show ?thesis by (simp add: s)
  next
    assume "sublist N (CHR ''/'' # Y)"
    then have "sublist N ((X @ ''photo-s'') @ (CHR ''/'' # Y) @ [])" by (rule sublist_inI)
    then show ?thesis by (simp add: s)
  qed
qed

lemma replace_wh_reflects:
  assumes "sublist N (replace_wh s)" and "CHR ''/'' \<notin> set N"
  shows "sublist N s"
  using replace_wh_cases[of s]
proof
  assume "replace_wh s = s"
  with assms show ?thesis by simp
next
  assume "\<exists>X M Y. s = X @ CHR ''/'' # M @ CHR ''/'' # Y \<and> replace_wh s = X @ CHR ''/'' # Y
        \<and> (\<forall>c \<in> set M. wh_char c)"
  then obtain X M Y where s: "s = X @ CHR ''/'' # M @ CHR ''/'' # Y"
    and r: "replace_wh s = X @ CHR ''/'' # Y" by blast
  from assms(1) r have "sublist N (X @ CHR ''/'' # Y)" by simp
  from sublist_split_at[OF this assms(2)] show ?thesis
  proof
    assume "sublist N X"
    then have "sublist N ([] @ X @ (CHR ''/'' # M @ CHR ''/'' # Y))" by (rule sublist_inI)
    then show ?thesis by (simp add: s)
  next
    assume "sublist N Y"
    then have "sublist N ((X @ CHR ''/'' # M @ [CHR ''/'']) @ Y @ [])" by (rule sublist_inI)
    then show ?thesis by (simp add: s)
  qed
qed

text \<open>A name without a slash, not ending in s and holding an m, survives.\<close>

lemma replace_photo_s_preserves:
  assumes "sublist N s" and "CHR ''/'' \<notin> set N" and "N \<noteq> []" and "last N \<noteq> CHR ''s''"
  shows "sublist N (replace_photo_s s)"
  using replace_photo_s_cases[of s]
proof
  assume "replace_photo_s s = s"
  with assms show ?thesis by simp
next
  assume "\<exists>X Y. s = X @ ''photo-s/'' @ Y \<and> replace_photo_s s = X @ ''photo-l/'' @ Y"
  then obtain X Y where s: "s = X @ ''photo-s/'' @ Y"
    and r: "replace_photo_s s = X @ ''photo-l/'' @ Y" by blast
  from assms(1) s have "sublist N ((X @ ''photo-s'') @ CHR ''/'' # Y)" by simp
  from sublist_split_at[OF this assms(2)] show ?thesis
  proof
    assume "sublist N (X @ ''photo-s'')"
    then have "sublist N ((X @ ''photo-'') @ [CHR ''s''])" by simp
    then have "sublist N (X @ ''photo-'')" using assms(3,4) by (rule sublist_drop_last)
    then have "sublist N ([] @ (X @ ''photo-'') @ (''l/'' @ Y))" by (rule sublist_inI)
    then show ?thesis by (simp add: r)
  next
    assume "sublist N Y"
    then have "sublist N ((X @ ''photo-l/'') @ Y @ [])" by (rule sublist_inI)
    then show ?thesis by (simp add: r)
  qed
qed

lemma replace_wh_preserves:
  assumes "sublist N s" and "CHR ''/'' \<notin> set N" and "CHR ''m'' \<in> set N"
  shows "sublist N (replace_wh s)"
  using replace_wh_cases[of s]
proof
  assume "replace_wh s = s"
  with assms show ?thesis by simp
next
  assume "\<exists>X M Y. s = X @ CHR ''/'' # M @ CHR ''/'' # Y \<and> replace_wh s = X @ CHR ''/'' # Y
        \<and> (\<forall>c \<in> set M. wh_char c)"
  then obtain X M Y where s: "s = X @ CHR ''/'' # M @ CHR ''/'' # Y"
    and r: "replace_wh s = X @ CHR ''/'' # Y" and M: "\<forall>c \<in> set M. wh_char c" by blast
  from assms(1) s have "sublist N (X @ CHR ''/'' # (M @ CHR ''/'' # Y))" by simp
  from sublist_split_at[OF this assms(2)] show ?thesis
  proof
    assume "sublist N X"
    then have "sublist N ([] @ X @ (CHR ''/'' # Y))" by (rule sublist_inI)
    then show ?thesis by (simp add: r)
  next
    assume "sublist N (M @ CHR ''/'' # Y)"
    from sublist_split_at[OF this assms(2)] show ?thesis
    proof
      assume "sublist N M"
      then have "set N \<subseteq> set M" by (rule set_mono_sublist)
      with assms(3) M have "wh_char CHR ''m''" by blast
      then show ?thesis by (simp add: wh_char_def is_digit_def)
    next
      assume "sublist N Y"
      then have "sublist N ((X @ [CHR ''/'']) @ Y @ [])" by (rule sublist_inI)
      then show ?thesis by (simp add: r)
    qed
  qed
qed

section \<open>The set of images\<close>

lemma foldl_set_add_distinct: "distinct S \<Longrightarrow> distinct (foldl set_add S xs)"
  by (induction xs arbitrary: S) (simp_all add: set_add_def)

lemma foldl_set_add_set: "set (foldl set_add S xs) = set S \<union> set xs"
  by (induction xs arbitrary: S) (auto simp: set_add_def)

lemma first_seen_in_append: "y \<in> set xs \<Longrightarrow> first_seen (xs @ zs) y = first_seen xs y"
  by (simp add: first_seen_def takeWhile_append1)

lemma first_seen_less: "y \<in> set xs \<Longrightarrow> first_seen xs y < length xs"
  by (induction xs) (auto simp: first_seen_def)

lemma first_seen_new: "y \<notin> set xs \<Longrightarrow> first_seen (xs @ [y]) y = length xs"
  by (induction xs) (auto simp: first_seen_def)

lemma set_add_old: "x \<in> set S \<Longrightarrow> set_add S x = S"
  by (simp add: set_add_def)

lemma set_add_new: "x \<notin> set S \<Longrightarrow> set_add S x = S @ [x]"
  by (simp add: set_add_def)

lemma foldl_set_add_order:
  "sorted_wrt (\<lambda>x y. first_seen xs x < first_seen xs y) (foldl set_add [] xs)"
proof (induction xs rule: rev_induct)
  case Nil
  then show ?case by simp
next
  case (snoc x xs)
  let ?S = "foldl set_add [] xs"
  have setS: "set ?S = set xs" by (simp add: foldl_set_add_set)
  have old: "sorted_wrt (\<lambda>a b. first_seen (xs @ [x]) a < first_seen (xs @ [x]) b) ?S"
    using snoc.IH
    by (rule sorted_wrt_mono_rel[rotated]) (simp add: setS first_seen_in_append)
  show ?case
  proof (cases "x \<in> set xs")
    case True
    with old show ?thesis by (simp add: set_add_old setS)
  next
    case False
    have "\<forall>a \<in> set ?S. first_seen (xs @ [x]) a < first_seen (xs @ [x]) x"
      using False by (simp add: setS first_seen_in_append first_seen_less first_seen_new)
    with old False show ?thesis
      by (simp add: set_add_new setS sorted_wrt_append)
  qed
qed

lemma images_added: "foldl image_step S imgs = foldl set_add S (added imgs)"
  by (induction imgs arbitrary: S)
    (simp_all add: added_def image_step_def List.map_filter_simps split: option.splits)

lemma images_eq: "images imgs = foldl set_add [] (added imgs)"
  by (simp add: images_def images_added)

lemma scrape_result_shape:
  assumes "fetchTripAdvisorImages e query mx = (calls, Inr out)"
  shows "out = [] \<or> (\<exists>u res2. place_page e u = Inr res2 \<and> out = image_list (page_imgs res2) mx)"
  using assms
  by (auto simp: fetchTripAdvisorImages_def Let_def split: sum.splits option.splits if_splits)

lemma image_list_props:
  "distinct (image_list imgs mx)
   \<and> sorted_wrt (\<lambda>x y. first_seen (added imgs) x < first_seen (added imgs) y) (image_list imgs mx)
   \<and> prefix (image_list imgs mx) (images imgs)
   \<and> set (images imgs) = set (added imgs)
   \<and> (0 \<le> mx \<longrightarrow> int (length (image_list imgs mx)) \<le> mx)"
proof -
  have p: "prefix (image_list imgs mx) (images imgs)"
    unfolding image_list_def by (rule slice0_prefix)
  then obtain zs where zs: "images imgs = image_list imgs mx @ zs" by (auto simp: prefix_def)
  have d: "distinct (images imgs)" by (simp add: images_eq foldl_set_add_distinct)
  have o: "sorted_wrt (\<lambda>x y. first_seen (added imgs) x < first_seen (added imgs) y) (images imgs)"
    unfolding images_eq by (rule foldl_set_add_order)
  from d have "distinct (image_list imgs mx)" unfolding zs by simp
  moreover from o
  have "sorted_wrt (\<lambda>x y. first_seen (added imgs) x < first_seen (added imgs) y) (image_list imgs mx)"
    unfolding zs by (simp add: sorted_wrt_append)
  moreover have "set (images imgs) = set (added imgs)"
    by (simp add: images_eq foldl_set_add_set)
  moreover have "0 \<le> mx \<longrightarrow> int (length (image_list imgs mx)) \<le> mx"
    by (simp add: image_list_def slice0_length)
  ultimately show ?thesis using p by blast
qed

section \<open>What the extractor emits\<close>

lemma added_from_accepted:
  assumes "d \<in> set (added imgs)"
  shows "\<exists>s. src d = replace_wh (replace_photo_s s) \<and> accept s \<and> \<not> js_includes s ''data:image''"
proof -
  from assms obtain i where "img_descriptor i = Some d"
    by (auto simp: added_def List.map_filter_def)
  then show ?thesis
    by (auto simp: img_descriptor_def Let_def split: if_splits)
qed

lemma normalize_keeps_cdn:
  assumes "js_includes s N" and "CHR ''/'' \<notin> set N" and "N \<noteq> []" and "last N \<noteq> CHR ''s''"
    and "CHR ''m'' \<in> set N"
  shows "js_includes (replace_wh (replace_photo_s s)) N"
  using assms unfolding js_includes_def
  by (intro replace_wh_preserves replace_photo_s_preserves)

lemma normalize_no_data_image:
  assumes "js_includes (replace_wh (replace_photo_s s)) ''data:image''"
  shows "js_includes s ''data:image''"
proof -
  have a: "CHR ''/'' \<notin> set ''data:image''" and b: "CHR ''l'' \<notin> set ''data:image''" by simp_all
  from assms have "sublist ''data:image'' (replace_photo_s s)"
    unfolding js_includes_def using a by (rule replace_wh_reflects)
  then show ?thesis unfolding js_includes_def using b by (rule replace_photo_s_reflects)
qed

lemma added_props:
  assumes "d \<in> set (added imgs)"
  shows "(js_includes (src d) ''media-cdn.tripadvisor.com''
           \<or> js_includes (src d) ''dynamic-media-cdn.tripadvisor.com'')
         \<and> \<not> js_includes (src d) ''data:image''"
proof -
  from added_from_accepted[OF assms] obtain s where
    s: "src d = replace_wh (replace_photo_s s)" "accept s" "\<not> js_includes s ''data:image''" by blast
  from s(2) have "js_includes (src d) ''media-cdn.tripadvisor.com''
           \<or> js_includes (src d) ''dynamic-media-cdn.tripadvisor.com''"
    unfolding accept_def s(1)
  proof
    assume "js_includes s ''media-cdn.tripadvisor.com''"
    then have "js_includes (replace_wh (replace_photo_s s)) ''media-cdn.tripadvisor.com''"
      by (rule normalize_keeps_cdn) simp_all
    then show "js_includes (replace_wh (replace_photo_s s)) ''media-cdn.tripadvisor.com''
           \<or> js_includes (replace_wh (replace_photo_s s)) ''dynamic-media-cdn.tripadvisor.com''" ..
  next
    assume "js_includes s ''dynamic-media-cdn.tripadvisor.com''"
    then have "js_includes (replace_wh (replace_photo_s s)) ''dynamic-media-cdn.tripadvisor.com''"
      by (rule normalize_keeps_cdn) simp_all
    then show "js_includes (replace_wh (replace_photo_s s)) ''media-cdn.tripadvisor.com''
           \<or> js_includes (replace_wh (replace_photo_s s)) ''dynamic-media-cdn.tripadvisor.com''" ..
  qed
  moreover have "\<not> js_includes (src d) ''data:image''"
    using s(3) normalize_no_data_image unfolding s(1) by blast
  ultimately show ?thesis by blast
qed

lemma image_list_subset: "set (image_list imgs mx) \<subseteq> set (added imgs)"
  using image_list_props[of imgs mx] by (auto dest: set_mono_prefix)

text \<open>
  C6. For every list of images and every count \<open>max\<close>, the extractor's output has no
  descriptor twice, lists its descriptors in the order in which they were first added, is
  an initial part of the set of all added descriptors, and has at most \<open>max\<close>
  descriptors. Every list the scrape source returns is free of repetitions and no longer
  than \<open>max\<close>.
\<close>

theorem image_list_dedup_order_cap:
  "distinct (image_list imgs (int n))
   \<and> sorted_wrt (\<lambda>x y. first_seen (added imgs) x < first_seen (added imgs) y)
        (image_list imgs (int n))
   \<and> set (image_list imgs (int n)) \<subseteq> set (added imgs)
   \<and> prefix (image_list imgs (int n)) (images imgs)
   \<and> set (images imgs) = set (added imgs)
   \<and> length (image_list imgs (int n)) \<le> n
   \<and> (\<forall>calls out. fetchTripAdvisorImages e query (int n) = (calls, Inr out) \<longrightarrow>
        distinct out \<and> length out \<le> n)"
proof -
  have len: "length (image_list is (int n)) \<le> n" for "is"
    by (simp add: image_list_def)
  have "distinct out \<and> length out \<le> n"
    if "fetchTripAdvisorImages e query (int n) = (calls, Inr out)" for calls out
    using scrape_result_shape[OF that] image_list_props len by auto
  then show ?thesis
    using image_list_props[of imgs "int n"] image_list_subset[of imgs "int n"] len[of imgs]
    by blast
qed

theorem image_list_dedup_order_cap_witness:
  "image_list eiffel_imgs (int 1) =
       [\<lparr>src = ''https://media-cdn.tripadvisor.com/media/photo-l/01/02/a.jpg'', alt = ''Eiffel''\<rparr>]
   \<and> distinct (image_list eiffel_imgs (int 1))
   \<and> length (image_list eiffel_imgs (int 1)) \<le> 1
   \<and> fetchTripAdvisorImages eiffel_env ''Eiffel Tower'' (int 10) =
     ([HttpGet ''https://www.tripadvisor.com/Search?q=Eiffel%20Tower'',
       HttpGet ''https://www.tripadvisor.com/Attraction_Review-g187147-d188151-Eiffel_Tower.html''],
      Inr (image_list eiffel_imgs (int 10)))
   \<and> distinct (image_list eiffel_imgs (int 10))
   \<and> length (image_list eiffel_imgs (int 10)) \<le> 10"
proof -
  have f: "fetchTripAdvisorImages eiffel_env ''Eiffel Tower'' (int 10) =
     ([HttpGet ''https://www.tripadvisor.com/Search?q=Eiffel%20Tower'',
       HttpGet ''https://www.tripadvisor.com/Attraction_Review-g187147-d188151-Eiffel_Tower.html''],
      Inr (image_list eiffel_imgs (int 10)))"
    by (simp add: scrape_eiffel image_list_eiffel)
  have one: "image_list eiffel_imgs (int 1) =
       [\<lparr>src = ''https://media-cdn.tripadvisor.com/media/photo-l/01/02/a.jpg'', alt = ''Eiffel''\<rparr>]"
    by (simp add: image_list_eiffel)
  from image_list_dedup_order_cap[of eiffel_imgs 1]
  have a: "distinct (image_list eiffel_imgs (int 1))" "length (image_list eiffel_imgs (int 1)) \<le> 1"
    by blast+
  from image_list_dedup_order_cap[of eiffel_imgs 10 eiffel_env "''Eiffel Tower''"] f
  have b: "distinct (image_list eiffel_imgs (int 10))"
    "length (image_list eiffel_imgs (int 10)) \<le> 10"
    by blast+
  from a b f one show ?thesis by blast
qed

text \<open>
  What the two tests do ensure: every descriptor the extractor emits, and so every
  descriptor the scrape source returns, has a \<open>src\<close> that contains one of the two CDN
  names somewhere and does not contain \<open>data:image\<close>.
\<close>

lemma emitted_sources_contain_name:
  "(\<forall>d \<in> set (image_list imgs mx).
      (js_includes (src d) ''media-cdn.tripadvisor.com''
        \<or> js_includes (src d) ''dynamic-media-cdn.tripadvisor.com'')
      \<and> \<not> js_includes (src d) ''data:image'')
   \<and> (\<forall>calls out. fetchTripAdvisorImages e query mx = (calls, Inr out) \<longrightarrow>
        (\<forall>d \<in> set out.
           (js_includes (src d) ''media-cdn.tripadvisor.com''
             \<or> js_includes (src d) ''dynamic-media-cdn.tripadvisor.com'')
           \<and> \<not> js_includes (src d) ''data:image''))"
proof -
  have a: "(js_includes (src d) ''media-cdn.tripadvisor.com''
        \<or> js_includes (src d) ''dynamic-media-cdn.tripadvisor.com'')
      \<and> \<not> js_includes (src d) ''data:image''" if "d \<in> set (image_list is m)" for d "is" m
  proof -
    from that image_list_subset have "d \<in> set (added is)" by blast
    then show ?thesis by (rule added_props)
  qed
  have b: "(js_includes (src d) ''media-cdn.tripadvisor.com''
        \<or> js_includes (src d) ''dynamic-media-cdn.tripadvisor.com'')
      \<and> \<not> js_includes (src d) ''data:image''"
    if "fetchTripAdvisorImages e query mx = (calls, Inr out)" "d \<in> set out" for calls out d
  proof -
    from scrape_result_shape[OF that(1)] that(2) obtain res2 :: page where
      "d \<in> set (image_list (page_imgs res2) mx)" by auto
    then show ?thesis by (rule a)
  qed
  from a b show ?thesis by blast
qed

text \<open>
  C5 says that no emitted \<open>src\<close> has a host outside the two CDN domains and that none is
  a data URI. The code, whose comment says that it extracts the image sources from the
  media CDNs, looks for the two names anywhere in the source and for \<open>data:image\<close>
  only. For a page with an image whose \<open>src\<close> is
  \<open>https://example.org/media-cdn.tripadvisor.com/a.jpg\<close> and one whose \<open>src\<close> is
  \<open>data:text/plain,media-cdn.tripadvisor.com\<close>, the extractor emits both: the first
  has the host \<open>example.org\<close>, which is neither CDN domain, and the second is a data URI.
\<close>

theorem foreign_host_emitted:
  "image_list foreign_imgs 10 =
     [\<lparr>src = ''https://example.org/media-cdn.tripadvisor.com/a.jpg'', alt = []\<rparr>,
      \<lparr>src = ''data:text/plain,media-cdn.tripadvisor.com'', alt = []\<rparr>]
   \<and> spec_host ''https://example.org/media-cdn.tripadvisor.com/a.jpg'' = ''example.org''
   \<and> ''example.org'' \<notin> {''media-cdn.tripadvisor.com'', ''dynamic-media-cdn.tripadvisor.com''}
   \<and> spec_data_uri ''data:text/plain,media-cdn.tripadvisor.com''"
proof -
  have "spec_host ''https://example.org/media-cdn.tripadvisor.com/a.jpg'' = ''example.org''"
    by code_simp
  moreover have "spec_data_uri ''data:text/plain,media-cdn.tripadvisor.com''"
    by (simp add: spec_data_uri_def)
  ultimately show ?thesis
    by (simp add: image_list_def images_foreign slice0_def)
qed

end
